theory Spec2Isabelle
  imports Complex_Main "HOL-Library.Char_ord" "HOL-Library.Product_Lexorder"
begin

section \<open>The NoteG lexer (noteg-lang/src/lexer.ts)\<close>

text \<open>
  A source text is a JavaScript string; it is modelled as a \<^typ>\<open>string\<close>, one
  \<^typ>\<open>char\<close> per code unit. The lexer only ever compares code units with ASCII
  characters, so every unit outside ASCII takes the same paths as any other
  unrecognised character.
\<close>

datatype TokenType =
    STRING | NUMBER | BOOLEAN | NULL
  | IDENTIFIER | KEYWORD
  | ASSIGN | EQUALS | NOT_EQUALS | PLUS | MINUS | MULTIPLY | DIVIDE | MODULO
  | AND | OR | NOT | PIPE | ARROW
  | LPAREN | RPAREN | LBRACE | RBRACE | LBRACKET | RBRACKET
  | COMMA | DOT | COLON | SEMICOLON
  | TEMPLATE_START | TEMPLATE_END | TEMPLATE_TEXT
  | COMMENT | NEWLINE | EOF | ERROR

text \<open>
  The interfaces \<open>Token\<close> and \<open>LexerError\<close>. Their fields carry a prefix, since both
  have a \<open>line\<close> and a \<open>column\<close>. A column is an \<^typ>\<open>int\<close>: \<open>addToken\<close> subtracts
  a length from the running column and the difference can be negative.
\<close>

record Token =
  ttype :: TokenType
  tvalue :: string
  tline :: int
  tcolumn :: int
  tlength :: nat

record LexerError =
  emessage :: string
  eline :: int
  ecolumn :: int

definition KEYWORDS :: "string list" where
  "KEYWORDS =
     [''let'', ''const'', ''fn'', ''if'', ''else'', ''for'', ''while'', ''return'',
      ''import'', ''export'', ''from'', ''as'', ''template'', ''content'', ''site'',
      ''true'', ''false'', ''null'', ''and'', ''or'', ''not'']"

text \<open>The private fields of class \<open>Lexer\<close>.\<close>

record Lexer =
  source :: string
  pos :: nat
  line :: int
  column :: int
  tokens :: "Token list"
  errors :: "LexerError list"
  inTemplate :: bool

definition newLexer :: "string \<Rightarrow> Lexer" where
  "newLexer src =
     \<lparr>source = src, pos = 0, line = 1, column = 1, tokens = [], errors = [],
      inTemplate = False\<rparr>"

definition isAtEnd :: "Lexer \<Rightarrow> bool" where
  "isAtEnd st \<longleftrightarrow> pos st \<ge> length (source st)"

text \<open>
  \<open>advance\<close> returns \<open>source[pos++]\<close>, which is \<open>undefined\<close> (here \<^const>\<open>None\<close>)
  once \<open>pos\<close> is past the end; it counts the column up in either case.
\<close>

definition advance :: "Lexer \<Rightarrow> char option \<times> Lexer" where
  "advance st =
     (if pos st < length (source st) then Some (source st ! pos st) else None,
      st\<lparr>column := column st + 1, pos := pos st + 1\<rparr>)"

definition peek :: "Lexer \<Rightarrow> char" where
  "peek st = (if isAtEnd st then CHR 0x00 else source st ! pos st)"

definition peekNext :: "Lexer \<Rightarrow> char" where
  "peekNext st =
     (if pos st + 1 \<ge> length (source st) then CHR 0x00 else source st ! (pos st + 1))"

definition isDigit :: "char \<Rightarrow> bool" where
  "isDigit c \<longleftrightarrow> CHR ''0'' \<le> c \<and> c \<le> CHR ''9''"

definition isAlpha :: "char \<Rightarrow> bool" where
  "isAlpha c \<longleftrightarrow>
     (CHR ''a'' \<le> c \<and> c \<le> CHR ''z'') \<or> (CHR ''A'' \<le> c \<and> c \<le> CHR ''Z'') \<or> c = CHR ''_''"

definition isAlphaNumeric :: "char \<Rightarrow> bool" where
  "isAlphaNumeric c \<longleftrightarrow> isAlpha c \<or> isDigit c"

definition addToken :: "TokenType \<Rightarrow> string \<Rightarrow> Lexer \<Rightarrow> Lexer" where
  "addToken ty v st =
     st\<lparr>tokens := tokens st @
        [\<lparr>ttype = ty, tvalue = v, tline = line st,
          tcolumn = column st - int (length v), tlength = length v\<rparr>]\<rparr>"

definition pushError :: "string \<Rightarrow> int \<Rightarrow> int \<Rightarrow> Lexer \<Rightarrow> Lexer" where
  "pushError msg l c st =
     st\<lparr>errors := errors st @ [\<lparr>emessage = msg, eline = l, ecolumn = c\<rparr>]\<rparr>"

text \<open>
  What \<open>value += x\<close> appends when \<open>x\<close> comes from \<open>advance\<close>: the character, or the
  text \<open>undefined\<close> when there was none.
\<close>

definition appended :: "char option \<Rightarrow> string" where
  "appended x = (case x of Some c \<Rightarrow> [c] | None \<Rightarrow> ''undefined'')"

text \<open>The \<open>switch (escaped)\<close> of \<open>string\<close>.\<close>

definition escapedText :: "char option \<Rightarrow> string" where
  "escapedText x =
     (if x = Some CHR ''n'' then [CHR 0x0A]
      else if x = Some CHR ''t'' then [CHR 0x09]
      else if x = Some CHR ''r'' then [CHR 0x0D]
      else if x = Some CHR 0x5C then [CHR 0x5C]
      else if x = Some CHR 0x22 then [CHR 0x22]
      else if x = Some CHR 0x27 then [CHR 0x27]
      else appended x)"

text \<open>The \<open>while\<close> loop of \<open>string\<close>; the accumulator is the local \<open>value\<close>.\<close>

function stringLoop :: "char \<Rightarrow> string \<Rightarrow> Lexer \<Rightarrow> string \<times> Lexer" where
  "stringLoop quote v st =
     (if \<not> isAtEnd st \<and> peek st \<noteq> quote then
        (let st1 = (if peek st = CHR 0x0A then st\<lparr>line := line st + 1, column := 1\<rparr> else st)
         in if peek st1 = CHR 0x5C then
              (let st2 = snd (advance st1);
                   (escaped, st3) = advance st2
               in stringLoop quote (v @ escapedText escaped) st3)
            else
              (let (c, st2) = advance st1
               in stringLoop quote (v @ appended c) st2))
      else (v, st))"
  by pat_completeness auto
termination
  by (relation "measure (\<lambda>(q, v, st). length (source st) - pos st)")
     (auto simp: isAtEnd_def advance_def peek_def split: if_splits)

definition stringLit :: "char \<Rightarrow> Lexer \<Rightarrow> Lexer" where
  "stringLit quote st =
     (let (v, st1) = stringLoop quote [] st
      in if isAtEnd st1 then pushError ''Unterminated string'' (line st1) (column st1) st1
         else addToken STRING v (snd (advance st1)))"

text \<open>The two digit loops of \<open>number\<close> are the same loop.\<close>

function digitLoop :: "string \<Rightarrow> Lexer \<Rightarrow> string \<times> Lexer" where
  "digitLoop v st =
     (if isDigit (peek st) then
        (let (c, st1) = advance st in digitLoop (v @ appended c) st1)
      else (v, st))"
  by pat_completeness auto
termination
  by (relation "measure (\<lambda>(v, st). length (source st) - pos st)")
     (auto simp: isAtEnd_def advance_def peek_def isDigit_def split: if_splits)

definition number :: "char \<Rightarrow> Lexer \<Rightarrow> Lexer" where
  "number first st =
     (let (v, st1) = digitLoop [first] st;
          (v2, st2) =
            (if peek st1 = CHR ''.'' \<and> isDigit (peekNext st1) then
               (let (c, st') = advance st1 in digitLoop (v @ appended c) st')
             else (v, st1))
      in addToken NUMBER v2 st2)"

function identLoop :: "string \<Rightarrow> Lexer \<Rightarrow> string \<times> Lexer" where
  "identLoop v st =
     (if isAlphaNumeric (peek st) then
        (let (c, st1) = advance st in identLoop (v @ appended c) st1)
      else (v, st))"
  by pat_completeness auto
termination
  by (relation "measure (\<lambda>(v, st). length (source st) - pos st)")
     (auto simp: isAtEnd_def advance_def peek_def isAlphaNumeric_def isAlpha_def isDigit_def
           split: if_splits)

definition identifierTok :: "char \<Rightarrow> Lexer \<Rightarrow> Lexer" where
  "identifierTok first st =
     (let (v, st1) = identLoop [first] st
      in if v = ''true'' \<or> v = ''false'' then addToken BOOLEAN v st1
         else if v = ''null'' then addToken NULL v st1
         else if v \<in> set KEYWORDS then addToken KEYWORD v st1
         else addToken IDENTIFIER v st1)"

function lineCommentLoop :: "string \<Rightarrow> Lexer \<Rightarrow> string \<times> Lexer" where
  "lineCommentLoop v st =
     (if \<not> isAtEnd st \<and> peek st \<noteq> CHR 0x0A then
        (let (c, st1) = advance st in lineCommentLoop (v @ appended c) st1)
      else (v, st))"
  by pat_completeness auto
termination
  by (relation "measure (\<lambda>(v, st). length (source st) - pos st)")
     (auto simp: isAtEnd_def advance_def)

definition lineComment :: "Lexer \<Rightarrow> Lexer" where
  "lineComment st =
     (let (v, st1) = lineCommentLoop ''//'' (snd (advance st))
      in addToken COMMENT v st1)"

function blockCommentLoop :: "string \<Rightarrow> Lexer \<Rightarrow> string \<times> Lexer" where
  "blockCommentLoop v st =
     (if \<not> isAtEnd st then
        (if peek st = CHR ''*'' \<and> peekNext st = CHR ''/'' then
           (let (a, st1) = advance st; (b, st2) = advance st1
            in (v @ appended a @ appended b, st2))
         else
           (let st1 = (if peek st = CHR 0x0A then st\<lparr>line := line st + 1, column := 1\<rparr>
                       else st);
                (c, st2) = advance st1
            in blockCommentLoop (v @ appended c) st2))
      else (v, st))"
  by pat_completeness auto
termination
  by (relation "measure (\<lambda>(v, st). length (source st) - pos st)")
     (auto simp: isAtEnd_def advance_def split: if_splits)

definition blockComment :: "Lexer \<Rightarrow> Lexer" where
  "blockComment st =
     (let (v, st1) = blockCommentLoop ''/*'' (snd (advance st))
      in addToken COMMENT v st1)"

text \<open>
  \<open>scanToken\<close> is only called when the lexer is not at the end, so \<open>char\<close> is a
  character; the \<open>switch\<close> is the chain of tests below, in the order of its cases.
\<close>

definition scanChar :: "char \<Rightarrow> Lexer \<Rightarrow> Lexer" where
  "scanChar c st =
     (if c = CHR ''('' then addToken LPAREN [c] st
      else if c = CHR '')'' then addToken RPAREN [c] st
      else if c = CHR ''{'' then
        (if peek st = CHR ''{'' then
           (addToken TEMPLATE_START ''{{'' (snd (advance st)))\<lparr>inTemplate := True\<rparr>
         else addToken LBRACE [c] st)
      else if c = CHR ''}'' then
        (if peek st = CHR ''}'' \<and> inTemplate st then
           (addToken TEMPLATE_END ''}}'' (snd (advance st)))\<lparr>inTemplate := False\<rparr>
         else addToken RBRACE [c] st)
      else if c = CHR ''['' then addToken LBRACKET [c] st
      else if c = CHR '']'' then addToken RBRACKET [c] st
      else if c = CHR '','' then addToken COMMA [c] st
      else if c = CHR ''.'' then addToken DOT [c] st
      else if c = CHR '':'' then addToken COLON [c] st
      else if c = CHR '';'' then addToken SEMICOLON [c] st
      else if c = CHR ''+'' then addToken PLUS [c] st
      else if c = CHR ''*'' then addToken MULTIPLY [c] st
      else if c = CHR ''%'' then addToken MODULO [c] st
      else if c = CHR ''|'' then
        (if peek st = CHR ''>'' then addToken PIPE ''|>'' (snd (advance st))
         else if peek st = CHR ''|'' then addToken OR ''||'' (snd (advance st))
         else addToken PIPE [c] st)
      else if c = CHR ''-'' then
        (if peek st = CHR ''>'' then addToken ARROW ''->'' (snd (advance st))
         else addToken MINUS [c] st)
      else if c = CHR ''='' then
        (if peek st = CHR ''='' then addToken EQUALS ''=='' (snd (advance st))
         else addToken ASSIGN [c] st)
      else if c = CHR ''!'' then
        (if peek st = CHR ''='' then addToken NOT_EQUALS ''!='' (snd (advance st))
         else addToken NOT [c] st)
      else if c = CHR ''&'' then
        (if peek st = CHR ''&'' then addToken AND ''&&'' (snd (advance st))
         else st)
      else if c = CHR ''/'' then
        (if peek st = CHR ''/'' then lineComment st
         else if peek st = CHR ''*'' then blockComment st
         else addToken DIVIDE [c] st)
      else if c = CHR '' '' \<or> c = CHR 0x09 \<or> c = CHR 0x0D then st
      else if c = CHR 0x0A then
        (addToken NEWLINE [c] st)\<lparr>line := line st + 1, column := 1\<rparr>
      else if c = CHR 0x22 \<or> c = CHR 0x27 then stringLit c st
      else if isDigit c then number c st
      else if isAlpha c then identifierTok c st
      else pushError (''Unexpected character: '' @ [c]) (line st) (column st - 1) st)"

definition scanToken :: "Lexer \<Rightarrow> Lexer" where
  "scanToken st =
     (case advance st of
        (Some c, st1) \<Rightarrow> scanChar c st1
      | (None, st1) \<Rightarrow>
          pushError (''Unexpected character: undefined'') (line st1) (column st1 - 1) st1)"

subsection \<open>What one lexeme consumes and emits\<close>

text \<open>
  The loops are unfolded by hand, one iteration at a time, so their equations leave the
  simplifier's rule set. Each loop is then described in closed form: how far it moves
  \<open>pos\<close>, what it appends to \<open>value\<close>, and where \<open>line\<close> and \<open>column\<close> end up.
\<close>

declare stringLoop.simps [simp del]
declare digitLoop.simps [simp del]
declare identLoop.simps [simp del]
declare lineCommentLoop.simps [simp del]
declare blockCommentLoop.simps [simp del]

lemma advance_eq: "advance st = (c, st') \<Longrightarrow>
   st' = st\<lparr>column := column st + 1, pos := pos st + 1\<rparr> \<and>
   c = (if pos st < length (source st) then Some (source st ! pos st) else None)"
  by (auto simp: advance_def)

lemma snd_advance: "snd (advance st) = st\<lparr>column := column st + 1, pos := pos st + 1\<rparr>"
  by (simp add: advance_def)

lemma take_Suc_drop: "p < length xs \<Longrightarrow> take (Suc k) (drop p xs) = xs ! p # take k (drop (Suc p) xs)"
  by (simp add: Cons_nth_drop_Suc [symmetric])

lemma exI3: "P a b c \<Longrightarrow> \<exists>x y z. P x y z"
  by blast

lemma exI4: "P a b c d \<Longrightarrow> \<exists>w x y z. P w x y z"
  by blast

lemma blockCommentLoop_closed:
  "blockCommentLoop v st = (v', st') \<Longrightarrow>
   \<exists>k l c. st' = st\<lparr>line := l, column := c, pos := pos st + k\<rparr> \<and>
       v' = v @ take k (drop (pos st) (source st)) \<and>
       (k = 0 \<or> pos st + k \<le> length (source st)) \<and>
       (line st < l \<or> l = line st \<and> c = column st + int k)"
proof (induction v st arbitrary: v' st' rule: blockCommentLoop.induct)
  case (1 v st)
  show ?case
  proof (cases "isAtEnd st")
    case True
    with "1.prems" have "v' = v" "st' = st" by (simp_all add: blockCommentLoop.simps [of v st])
    then show ?thesis by (intro exI3 [of _ 0 "line st" "column st"]) simp
  next
    case False
    then have lt: "pos st < length (source st)" by (simp add: isAtEnd_def)
    show ?thesis
    proof (cases "peek st = CHR ''*'' \<and> peekNext st = CHR ''/''")
      case True
      then have lt2: "pos st + 1 < length (source st)"
        by (auto simp: peekNext_def split: if_splits)
      from "1.prems" True False lt lt2
      have "v' = v @ [source st ! pos st, source st ! (pos st + 1)]"
        and "st' = st\<lparr>line := line st, column := column st + 2, pos := pos st + 2\<rparr>"
        by (auto simp: blockCommentLoop.simps [of v st] advance_def appended_def)
      moreover have "take 2 (drop (pos st) (source st)) = [source st ! pos st, source st ! (pos st + 1)]"
        using lt lt2 by (simp add: numeral_2_eq_2 take_Suc_drop)
      ultimately show ?thesis using lt2
        by (intro exI3 [of _ 2 "line st" "column st + 2"]) simp
    next
      case nostop: False
      define st1 where "st1 = (if peek st = CHR 0x0A then st\<lparr>line := line st + 1, column := 1\<rparr> else st)"
      obtain c st2 where adv: "advance st1 = (c, st2)" by force
      have src1: "source st1 = source st" "pos st1 = pos st" by (simp_all add: st1_def)
      have over: "st1\<lparr>line := l, column := d, pos := p\<rparr> = st\<lparr>line := l, column := d, pos := p\<rparr>"
        for l d p by (simp add: st1_def)
      have ln: "line st1 = line st \<and> column st1 = column st \<or> line st < line st1"
        by (simp add: st1_def)
      from advance_eq [OF adv] lt src1
      have st2: "st2 = st1\<lparr>column := column st1 + 1, pos := pos st + 1\<rparr>"
        and c: "c = Some (source st ! pos st)" by simp_all
      from "1.prems" False nostop adv have "blockCommentLoop (v @ appended c) st2 = (v', st')"
        by (simp add: blockCommentLoop.simps [of v st] st1_def [symmetric])
      from "1.IH" [OF False nostop st1_def refl adv [symmetric] this]
      obtain k l d where k: "st' = st2\<lparr>line := l, column := d, pos := pos st2 + k\<rparr>"
        "v' = (v @ appended c) @ take k (drop (pos st2) (source st2))"
        "k = 0 \<or> pos st2 + k \<le> length (source st2)"
        "line st2 < l \<or> l = line st2 \<and> d = column st2 + int k" by blast
      show ?thesis
        using k lt ln
        by (intro exI3 [of _ "Suc k" l d])
           (auto simp: st2 src1 over c appended_def take_Suc_drop)
    qed
  qed
qed

lemma stringLoop_closed:
  "stringLoop q v st = (v', st') \<Longrightarrow>
   \<exists>k l c. st' = st\<lparr>line := l, column := c, pos := pos st + k\<rparr> \<and>
       (line st < l \<or> l = line st \<and> c = column st + int k) \<and>
       (pos st + k \<le> length (source st) \<longrightarrow> length v' \<le> length v + k)"
proof (induction q v st arbitrary: v' st' rule: stringLoop.induct)
  case (1 q v st)
  show ?case
  proof (cases "\<not> isAtEnd st \<and> peek st \<noteq> q")
    case False
    with "1.prems" have "v' = v" "st' = st" by (simp_all add: stringLoop.simps [of q v st])
    then show ?thesis by (intro exI3 [of _ 0 "line st" "column st"]) simp
  next
    case True
    then have lt: "pos st < length (source st)" by (simp add: isAtEnd_def)
    define st1 where "st1 = (if peek st = CHR 0x0A then st\<lparr>line := line st + 1, column := 1\<rparr> else st)"
    have src1: "source st1 = source st" "pos st1 = pos st" "peek st1 = peek st"
      by (simp_all add: st1_def peek_def isAtEnd_def)
    have over: "st1\<lparr>line := l, column := d, pos := p\<rparr> = st\<lparr>line := l, column := d, pos := p\<rparr>"
      for l d p by (simp add: st1_def)
    have ln: "line st1 = line st \<and> column st1 = column st \<or> line st < line st1"
      by (simp add: st1_def)
    show ?thesis
    proof (cases "peek st1 = CHR 0x5C")
      case esc: True
      define st2 where "st2 = snd (advance st1)"
      obtain e st3 where adv: "advance st2 = (e, st3)" by force
      have st3: "st3 = st1\<lparr>column := column st1 + 2, pos := pos st + 2\<rparr>"
        using advance_eq [OF adv] by (simp add: st2_def snd_advance src1)
      have e: "pos st + 2 \<le> length (source st) \<Longrightarrow> length (escapedText e) = 1"
        using advance_eq [OF adv] by (simp add: st2_def snd_advance src1 escapedText_def appended_def)
      from "1.prems" True esc adv have "stringLoop q (v @ escapedText e) st3 = (v', st')"
        by (simp add: stringLoop.simps [of q v st] st1_def [symmetric] st2_def [symmetric])
      from "1.IH" (1) [OF True st1_def esc st2_def refl adv [symmetric] this]
      obtain k l d where k: "st' = st3\<lparr>line := l, column := d, pos := pos st3 + k\<rparr>"
        "line st3 < l \<or> l = line st3 \<and> d = column st3 + int k"
        "pos st3 + k \<le> length (source st3) \<longrightarrow> length v' \<le> length (v @ escapedText e) + k"
        by blast
      show ?thesis
        using k e ln
        by (intro exI3 [of _ "k + 2" l d])
           (auto simp: st3 src1 over)
    next
      case noesc: False
      obtain c st2 where adv: "advance st1 = (c, st2)" by force
      from advance_eq [OF adv] lt src1
      have st2: "st2 = st1\<lparr>column := column st1 + 1, pos := pos st + 1\<rparr>"
        and c: "c = Some (source st ! pos st)" by simp_all
      from "1.prems" True noesc adv have "stringLoop q (v @ appended c) st2 = (v', st')"
        by (simp add: stringLoop.simps [of q v st] st1_def [symmetric])
      from "1.IH" (2) [OF True st1_def noesc refl adv [symmetric] this]
      obtain k l d where k: "st' = st2\<lparr>line := l, column := d, pos := pos st2 + k\<rparr>"
        "line st2 < l \<or> l = line st2 \<and> d = column st2 + int k"
        "pos st2 + k \<le> length (source st2) \<longrightarrow> length v' \<le> length (v @ appended c) + k"
        by blast
      show ?thesis
        using k ln
        by (intro exI3 [of _ "Suc k" l d])
           (auto simp: st2 src1 over c appended_def)
    qed
  qed
qed


lemma digitLoop_closed:
  "digitLoop v st = (v', st') \<Longrightarrow>
   \<exists>k. st' = st\<lparr>column := column st + int k, pos := pos st + k\<rparr> \<and>
       v' = v @ take k (drop (pos st) (source st)) \<and> (k = 0 \<or> pos st + k \<le> length (source st))"
proof (induction v st arbitrary: v' st' rule: digitLoop.induct)
  case (1 v st)
  show ?case
  proof (cases "isDigit (peek st)")
    case False
    with "1.prems" have "v' = v" "st' = st" by (simp_all add: digitLoop.simps [of v st])
    then show ?thesis by (intro exI [of _ 0]) simp
  next
    case True
    then have lt: "pos st < length (source st)"
      by (auto simp: peek_def isAtEnd_def isDigit_def isAlphaNumeric_def isAlpha_def split: if_splits)
    obtain c st1 where adv: "advance st = (c, st1)" by force
    from advance_eq [OF adv] lt have st1: "st1 = st\<lparr>column := column st + 1, pos := pos st + 1\<rparr>"
      and c: "c = Some (source st ! pos st)" by simp_all
    from "1.prems" True adv have "digitLoop (v @ appended c) st1 = (v', st')"
      by (simp add: digitLoop.simps [of v st])
    from "1.IH" [OF True refl adv [symmetric] this]
    obtain k where k: "st' = st1\<lparr>column := column st1 + int k, pos := pos st1 + k\<rparr>"
      "v' = (v @ appended c) @ take k (drop (pos st1) (source st1))"
      "k = 0 \<or> pos st1 + k \<le> length (source st1)" by blast
    show ?thesis
      using k lt by (intro exI [of _ "Suc k"]) (auto simp: st1 c appended_def take_Suc_drop)
  qed
qed

lemma identLoop_closed:
  "identLoop v st = (v', st') \<Longrightarrow>
   \<exists>k. st' = st\<lparr>column := column st + int k, pos := pos st + k\<rparr> \<and>
       v' = v @ take k (drop (pos st) (source st)) \<and> (k = 0 \<or> pos st + k \<le> length (source st))"
proof (induction v st arbitrary: v' st' rule: identLoop.induct)
  case (1 v st)
  show ?case
  proof (cases "isAlphaNumeric (peek st)")
    case False
    with "1.prems" have "v' = v" "st' = st" by (simp_all add: identLoop.simps [of v st])
    then show ?thesis by (intro exI [of _ 0]) simp
  next
    case True
    then have lt: "pos st < length (source st)"
      by (auto simp: peek_def isAtEnd_def isDigit_def isAlphaNumeric_def isAlpha_def split: if_splits)
    obtain c st1 where adv: "advance st = (c, st1)" by force
    from advance_eq [OF adv] lt have st1: "st1 = st\<lparr>column := column st + 1, pos := pos st + 1\<rparr>"
      and c: "c = Some (source st ! pos st)" by simp_all
    from "1.prems" True adv have "identLoop (v @ appended c) st1 = (v', st')"
      by (simp add: identLoop.simps [of v st])
    from "1.IH" [OF True refl adv [symmetric] this]
    obtain k where k: "st' = st1\<lparr>column := column st1 + int k, pos := pos st1 + k\<rparr>"
      "v' = (v @ appended c) @ take k (drop (pos st1) (source st1))"
      "k = 0 \<or> pos st1 + k \<le> length (source st1)" by blast
    show ?thesis
      using k lt by (intro exI [of _ "Suc k"]) (auto simp: st1 c appended_def take_Suc_drop)
  qed
qed

lemma lineCommentLoop_closed:
  "lineCommentLoop v st = (v', st') \<Longrightarrow>
   \<exists>k. st' = st\<lparr>column := column st + int k, pos := pos st + k\<rparr> \<and>
       v' = v @ take k (drop (pos st) (source st)) \<and> (k = 0 \<or> pos st + k \<le> length (source st))"
proof (induction v st arbitrary: v' st' rule: lineCommentLoop.induct)
  case (1 v st)
  show ?case
  proof (cases "\<not> isAtEnd st \<and> peek st \<noteq> CHR 0x0A")
    case False
    with "1.prems" have "v' = v" "st' = st" by (simp_all add: lineCommentLoop.simps [of v st])
    then show ?thesis by (intro exI [of _ 0]) simp
  next
    case True
    then have lt: "pos st < length (source st)"
      by (auto simp: peek_def isAtEnd_def isDigit_def isAlphaNumeric_def isAlpha_def split: if_splits)
    obtain c st1 where adv: "advance st = (c, st1)" by force
    from advance_eq [OF adv] lt have st1: "st1 = st\<lparr>column := column st + 1, pos := pos st + 1\<rparr>"
      and c: "c = Some (source st ! pos st)" by simp_all
    from "1.prems" True adv have "lineCommentLoop (v @ appended c) st1 = (v', st')"
      by (simp add: lineCommentLoop.simps [of v st])
    from "1.IH" [OF True refl adv [symmetric] this]
    obtain k where k: "st' = st1\<lparr>column := column st1 + int k, pos := pos st1 + k\<rparr>"
      "v' = (v @ appended c) @ take k (drop (pos st1) (source st1))"
      "k = 0 \<or> pos st1 + k \<le> length (source st1)" by blast
    show ?thesis
      using k lt by (intro exI [of _ "Suc k"]) (auto simp: st1 c appended_def take_Suc_drop)
  qed
qed

lemma stringLoop_exit:
  "stringLoop q v st = (v', st') \<Longrightarrow> isAtEnd st' \<or> peek st' = q"
proof (induction q v st arbitrary: v' st' rule: stringLoop.induct)
  case (1 q v st)
  show ?case
  proof (cases "\<not> isAtEnd st \<and> peek st \<noteq> q")
    case False
    with "1.prems" show ?thesis by (auto simp: stringLoop.simps [of q v st])
  next
    case True
    define st1 where "st1 = (if peek st = CHR 0x0A then st\<lparr>line := line st + 1, column := 1\<rparr> else st)"
    show ?thesis
    proof (cases "peek st1 = CHR 0x5C")
      case esc: True
      define st2 where "st2 = snd (advance st1)"
      obtain e st3 where adv: "advance st2 = (e, st3)" by force
      from "1.prems" True esc adv have "stringLoop q (v @ escapedText e) st3 = (v', st')"
        by (simp add: stringLoop.simps [of q v st] st1_def [symmetric] st2_def [symmetric])
      from "1.IH" (1) [OF True st1_def esc st2_def refl adv [symmetric] this] show ?thesis .
    next
      case noesc: False
      obtain c st2 where adv: "advance st1 = (c, st2)" by force
      from "1.prems" True noesc adv have "stringLoop q (v @ appended c) st2 = (v', st')"
        by (simp add: stringLoop.simps [of q v st] st1_def [symmetric])
      from "1.IH" (2) [OF True st1_def noesc refl adv [symmetric] this] show ?thesis .
    qed
  qed
qed

lemma take_take_drop: "take a (drop p xs) @ take b (drop (p + a) xs) = take (a + b) (drop p xs)"
  by (simp add: take_add add.commute)

lemma number_closed:
  "pos st \<le> length (source st) \<Longrightarrow>
   \<exists>k. number c st =
     st\<lparr>column := column st + int k, pos := pos st + k,
        tokens := tokens st @
          [\<lparr>ttype = NUMBER, tvalue = c # take k (drop (pos st) (source st)), tline = line st,
            tcolumn = column st - 1, tlength = Suc k\<rparr>]\<rparr> \<and>
     pos st + k \<le> length (source st)"
proof -
  assume le: "pos st \<le> length (source st)"
  obtain v st1 where d1: "digitLoop [c] st = (v, st1)" by force
  from digitLoop_closed [OF d1] obtain k1 where k1':
    "st1 = st\<lparr>column := column st + int k1, pos := pos st + k1\<rparr>"
    "v = [c] @ take k1 (drop (pos st) (source st))"
    "k1 = 0 \<or> pos st + k1 \<le> length (source st)"
    by blast
  from k1' (3) le have "pos st + k1 \<le> length (source st)" by auto
  note k1 = k1' (1,2) this
  show ?thesis
  proof (cases "peek st1 = CHR ''.'' \<and> isDigit (peekNext st1)")
    case False
    then have "number c st = addToken NUMBER v st1"
      using d1 by (auto simp: number_def)
    then show ?thesis using k1 by (intro exI [of _ k1]) (simp add: addToken_def)
  next
    case True
    then have lt: "pos st1 < length (source st1)"
      by (auto simp: peek_def isAtEnd_def split: if_splits)
    obtain a st2 where adv: "advance st1 = (a, st2)" by force
    from advance_eq [OF adv] lt have st2: "st2 = st1\<lparr>column := column st1 + 1, pos := pos st1 + 1\<rparr>"
      and a: "a = Some (source st1 ! pos st1)" by simp_all
    obtain v2 st3 where d2: "digitLoop (v @ appended a) st2 = (v2, st3)" by force
    from digitLoop_closed [OF d2] obtain k2 where k2:
      "st3 = st2\<lparr>column := column st2 + int k2, pos := pos st2 + k2\<rparr>"
      "v2 = (v @ appended a) @ take k2 (drop (pos st2) (source st2))"
      "k2 = 0 \<or> pos st2 + k2 \<le> length (source st2)" by blast
    have n: "number c st = addToken NUMBER v2 st3"
      using d1 True adv d2 by (simp add: number_def)
    have t1: "take k1 (drop (pos st) (source st)) @ [source st ! (pos st + k1)] =
        take (Suc k1) (drop (pos st) (source st))"
      using lt k1 by (simp add: take_Suc_conv_app_nth)
    have t2: "take (Suc k1) (drop (pos st) (source st)) @ take k2 (drop (pos st + Suc k1) (source st)) =
        take (Suc k1 + k2) (drop (pos st) (source st))"
      by (rule take_take_drop)
    have "v2 = c # (take k1 (drop (pos st) (source st)) @ [source st ! (pos st + k1)]) @
        take k2 (drop (pos st + Suc k1) (source st))"
      using k2 k1 lt by (simp add: st2 a appended_def)
    also have "\<dots> = c # take (Suc k1 + k2) (drop (pos st) (source st))"
      by (simp only: t1 t2)
    finally have "v2 = c # take (Suc k1 + k2) (drop (pos st) (source st))" .
    then show ?thesis
      using k1 k2 lt n
      by (intro exI [of _ "Suc k1 + k2"]) (auto simp: addToken_def st2)
  qed
qed


lemma identifierTok_closed:
  "\<exists>k ty. identifierTok c st =
     st\<lparr>column := column st + int k, pos := pos st + k,
        tokens := tokens st @
          [\<lparr>ttype = ty, tvalue = c # take k (drop (pos st) (source st)), tline = line st,
            tcolumn = column st - 1, tlength = Suc k\<rparr>]\<rparr> \<and>
     (k = 0 \<or> pos st + k \<le> length (source st)) \<and>
     (ty = BOOLEAN \<or> ty = NULL \<or> ty = KEYWORD \<or> ty = IDENTIFIER)"
proof -
  obtain v st1 where d1: "identLoop [c] st = (v, st1)" by force
  from identLoop_closed [OF d1] obtain k where k:
    "st1 = st\<lparr>column := column st + int k, pos := pos st + k\<rparr>"
    "v = [c] @ take k (drop (pos st) (source st))"
    "k = 0 \<or> pos st + k \<le> length (source st)"
    by blast
  define ty where "ty = (if v = ''true'' \<or> v = ''false'' then BOOLEAN else if v = ''null'' then NULL
     else if v \<in> set KEYWORDS then KEYWORD else IDENTIFIER)"
  have "identifierTok c st = addToken ty v st1"
    using d1 by (simp add: identifierTok_def ty_def)
  moreover have "ty = BOOLEAN \<or> ty = NULL \<or> ty = KEYWORD \<or> ty = IDENTIFIER"
    by (simp add: ty_def)
  ultimately show ?thesis
    using k by (intro exI [of _ k] exI [of _ ty]) (auto simp: addToken_def)
qed

lemma lineComment_closed:
  "pos st < length (source st) \<Longrightarrow>
   \<exists>k. lineComment st =
     st\<lparr>column := column st + 1 + int k, pos := pos st + 1 + k,
        tokens := tokens st @
          [\<lparr>ttype = COMMENT, tvalue = ''//'' @ take k (drop (Suc (pos st)) (source st)),
            tline = line st, tcolumn = column st - 1, tlength = k + 2\<rparr>]\<rparr> \<and>
     pos st + 1 + k \<le> length (source st)"
proof -
  assume lt: "pos st < length (source st)"
  obtain v st1 where d1: "lineCommentLoop ''//'' (snd (advance st)) = (v, st1)" by force
  from lineCommentLoop_closed [OF d1] obtain k where k:
    "st1 = st\<lparr>column := column st + 1 + int k, pos := pos st + 1 + k\<rparr>"
    "v = ''//'' @ take k (drop (Suc (pos st)) (source st))"
    "k = 0 \<or> pos st + 1 + k \<le> length (source st)"
    by (auto simp: snd_advance)
  have "lineComment st = addToken COMMENT v st1"
    using d1 by (simp add: lineComment_def)
  then show ?thesis
    using k lt by (intro exI [of _ k]) (auto simp: addToken_def)
qed

lemma blockComment_closed:
  "pos st < length (source st) \<Longrightarrow>
   \<exists>k l d. blockComment st =
     st\<lparr>line := l, column := d, pos := pos st + 1 + k,
        tokens := tokens st @
          [\<lparr>ttype = COMMENT, tvalue = ''/*'' @ take k (drop (Suc (pos st)) (source st)),
            tline = l, tcolumn = d - int (k + 2), tlength = k + 2\<rparr>]\<rparr> \<and>
     pos st + 1 + k \<le> length (source st) \<and>
     (line st < l \<or> l = line st \<and> d = column st + 1 + int k)"
proof -
  assume lt: "pos st < length (source st)"
  obtain v st1 where d1: "blockCommentLoop ''/*'' (snd (advance st)) = (v, st1)" by force
  from blockCommentLoop_closed [OF d1] obtain k l d where k:
    "st1 = st\<lparr>line := l, column := d, pos := pos st + 1 + k\<rparr>"
    "v = ''/*'' @ take k (drop (Suc (pos st)) (source st))"
    "k = 0 \<or> pos st + 1 + k \<le> length (source st)"
    "line st < l \<or> l = line st \<and> d = column st + 1 + int k"
    by (auto simp: snd_advance)
  have "blockComment st = addToken COMMENT v st1"
    using d1 by (simp add: blockComment_def)
  then show ?thesis
    using k lt by (intro exI3 [of _ k l d]) (auto simp: addToken_def)
qed

lemma stringLit_closed:
  "\<exists>k l d v. (line st < l \<or> l = line st \<and> d = column st + int k) \<and>
     ((stringLit q st =
       st\<lparr>line := l, column := d, pos := pos st + k,
          errors := errors st @ [\<lparr>emessage = ''Unterminated string'', eline = l, ecolumn = d\<rparr>]\<rparr> \<and>
       length (source st) \<le> pos st + k) \<or>
     (stringLit q st =
       st\<lparr>line := l, column := d + 1, pos := pos st + k + 1,
          tokens := tokens st @
            [\<lparr>ttype = STRING, tvalue = v, tline = l, tcolumn = d + 1 - int (length v),
              tlength = length v\<rparr>]\<rparr> \<and>
       pos st + k < length (source st) \<and> source st ! (pos st + k) = q \<and> length v \<le> k))"
proof -
  obtain v st1 where d1: "stringLoop q [] st = (v, st1)" by force
  from stringLoop_closed [OF d1] obtain k l d where k:
    "st1 = st\<lparr>line := l, column := d, pos := pos st + k\<rparr>"
    "line st < l \<or> l = line st \<and> d = column st + int k"
    "pos st + k \<le> length (source st) \<longrightarrow> length v \<le> k"
    by auto
  show ?thesis
  proof (cases "isAtEnd st1")
    case True
    then have "stringLit q st = pushError ''Unterminated string'' (line st1) (column st1) st1"
      using d1 by (simp add: stringLit_def)
    then show ?thesis
      using k True by (intro exI4 [of _ k l d v])
        (simp add: pushError_def isAtEnd_def)
  next
    case False
    then have "stringLit q st = addToken STRING v (snd (advance st1))"
      using d1 by (simp add: stringLit_def)
    moreover from stringLoop_exit [OF d1] False have "peek st1 = q" by simp
    ultimately show ?thesis
      using k False by (intro exI4 [of _ k l d v])
        (simp add: addToken_def isAtEnd_def snd_advance peek_def)
  qed
qed

text \<open>
  One call of \<open>scanToken\<close> reads a character \<open>c\<close> and then, from the state \<open>st\<close> after
  that read, consumes \<open>k\<close> further characters, appends the tokens \<open>new\<close> and the errors
  \<open>errs\<close>. \<open>emitted\<close> lists the four things that can happen: the character is skipped,
  it is reported as unexpected, a string runs to the end of the input, or one token is
  appended.
\<close>

definition isQuote :: "char \<Rightarrow> bool" where
  "isQuote c \<longleftrightarrow> c = CHR 0x22 \<or> c = CHR 0x27"

definition isSpace :: "char \<Rightarrow> bool" where
  "isSpace c \<longleftrightarrow> c = CHR '' '' \<or> c = CHR 0x09 \<or> c = CHR 0x0D"

definition tokenPos :: "Token \<Rightarrow> int \<times> int" where
  "tokenPos t = (tline t, tcolumn t)"

definition emitted :: "char \<Rightarrow> Lexer \<Rightarrow> Lexer \<Rightarrow> nat \<Rightarrow> Token list \<Rightarrow> LexerError list \<Rightarrow> bool" where
  "emitted c st st' k new errs \<longleftrightarrow>
     (new = [] \<and> errs = [] \<and> k = 0 \<and> (isSpace c \<or> c = CHR ''&'')) \<or>
     (new = [] \<and> (\<exists>e. errs = [e]) \<and> k = 0 \<and> \<not> isQuote c) \<or>
     (new = [] \<and> (\<exists>e. errs = [e] \<and> emessage e = ''Unterminated string'') \<and> isQuote c \<and>
        isAtEnd st') \<or>
     (\<exists>t. new = [t] \<and> errs = [] \<and> tlength t = length (tvalue t) \<and>
        ttype t \<noteq> TEMPLATE_TEXT \<and> ttype t \<noteq> EOF \<and>
        (line st, column st - 1) \<le> tokenPos t \<and> tokenPos t \<le> (line st', column st') \<and>
        (if isQuote c then ttype t = STRING
         else tvalue t = c # take k (drop (pos st) (source st)) \<and>
              pos st + k \<le> length (source st)))"

definition lexeme :: "char \<Rightarrow> Lexer \<Rightarrow> Lexer \<Rightarrow> bool" where
  "lexeme c st st' \<longleftrightarrow>
     (\<exists>k new errs.
        source st' = source st \<and> pos st' = pos st + k \<and>
        tokens st' = tokens st @ new \<and> errors st' = errors st @ errs \<and>
        (line st < line st' \<or> line st' = line st \<and> column st' = column st + int k) \<and>
        emitted c st st' k new errs)"

lemma lexemeI:
  "source st' = source st \<Longrightarrow> pos st' = pos st + k \<Longrightarrow>
   tokens st' = tokens st @ new \<Longrightarrow> errors st' = errors st @ errs \<Longrightarrow>
   line st < line st' \<or> line st' = line st \<and> column st' = column st + int k \<Longrightarrow>
   emitted c st st' k new errs \<Longrightarrow> lexeme c st st'"
  unfolding lexeme_def by blast

lemma lexeme_single:
  "ty \<noteq> TEMPLATE_TEXT \<Longrightarrow> ty \<noteq> EOF \<Longrightarrow> \<not> isQuote c \<Longrightarrow> pos st \<le> length (source st) \<Longrightarrow>
   lexeme c st (addToken ty [c] st)"
  by (rule lexemeI [where k = 0 and errs = "[]" and
        new = "[\<lparr>ttype = ty, tvalue = [c], tline = line st, tcolumn = column st - 1, tlength = 1\<rparr>]"])
     (simp_all add: addToken_def emitted_def tokenPos_def)

lemma lexeme_double:
  "ty \<noteq> TEMPLATE_TEXT \<Longrightarrow> ty \<noteq> EOF \<Longrightarrow> \<not> isQuote c \<Longrightarrow> peek st = c2 \<Longrightarrow> c2 \<noteq> CHR 0x00 \<Longrightarrow>
   lexeme c st ((addToken ty [c, c2] (snd (advance st)))\<lparr>inTemplate := b\<rparr>)"
  by (rule lexemeI [where k = 1 and errs = "[]" and
        new = "[\<lparr>ttype = ty, tvalue = [c, c2], tline = line st, tcolumn = column st - 1, tlength = 2\<rparr>]"])
     (auto simp: addToken_def emitted_def tokenPos_def snd_advance peek_def isAtEnd_def
          take_Suc_drop split: if_splits)

lemma lexeme_double':
  "ty \<noteq> TEMPLATE_TEXT \<Longrightarrow> ty \<noteq> EOF \<Longrightarrow> \<not> isQuote c \<Longrightarrow> peek st = c2 \<Longrightarrow> c2 \<noteq> CHR 0x00 \<Longrightarrow>
   lexeme c st (addToken ty [c, c2] (snd (advance st)))"
  using lexeme_double [of ty c st c2 "inTemplate st"] by (simp add: addToken_def snd_advance)

lemma lexeme_newline:
  "pos st \<le> length (source st) \<Longrightarrow>
   lexeme (CHR 0x0A) st ((addToken NEWLINE [CHR 0x0A] st)\<lparr>line := line st + 1, column := 1\<rparr>)"
  by (rule lexemeI [where k = 0 and errs = "[]" and
        new = "[\<lparr>ttype = NEWLINE, tvalue = [CHR 0x0A], tline = line st, tcolumn = column st - 1, tlength = 1\<rparr>]"])
     (simp_all add: addToken_def emitted_def tokenPos_def isQuote_def)

lemma lexeme_skip:
  "isSpace c \<or> c = CHR ''&'' \<Longrightarrow> lexeme c st st"
  by (rule lexemeI [where k = 0 and errs = "[]" and new = "[]"])
     (simp_all add: emitted_def)

lemma lexeme_unexpected:
  "\<not> isQuote c \<Longrightarrow> lexeme c st (pushError m l d st)"
  by (rule lexemeI [where k = 0 and errs = "[\<lparr>emessage = m, eline = l, ecolumn = d\<rparr>]" and new = "[]"])
     (simp_all add: emitted_def pushError_def)

lemma lexeme_number:
  assumes "pos st \<le> length (source st)" "\<not> isQuote c"
  shows "lexeme c st (number c st)"
proof -
  from number_closed [OF assms(1), of c] obtain k where k: "number c st =
     st\<lparr>column := column st + int k, pos := pos st + k,
        tokens := tokens st @
          [\<lparr>ttype = NUMBER, tvalue = c # take k (drop (pos st) (source st)), tline = line st,
            tcolumn = column st - 1, tlength = Suc k\<rparr>]\<rparr>" "pos st + k \<le> length (source st)"
    by blast
  show ?thesis
    by (rule lexemeI [where k = k and errs = "[]" and
        new = "[\<lparr>ttype = NUMBER, tvalue = c # take k (drop (pos st) (source st)), tline = line st,
            tcolumn = column st - 1, tlength = Suc k\<rparr>]"])
       (use k assms in \<open>simp_all add: emitted_def tokenPos_def\<close>)
qed

lemma lexeme_identifier:
  assumes "pos st \<le> length (source st)" "\<not> isQuote c"
  shows "lexeme c st (identifierTok c st)"
proof -
  from identifierTok_closed [of c st] obtain k ty where k: "identifierTok c st =
     st\<lparr>column := column st + int k, pos := pos st + k,
        tokens := tokens st @
          [\<lparr>ttype = ty, tvalue = c # take k (drop (pos st) (source st)), tline = line st,
            tcolumn = column st - 1, tlength = Suc k\<rparr>]\<rparr>"
     "k = 0 \<or> pos st + k \<le> length (source st)"
     "ty = BOOLEAN \<or> ty = NULL \<or> ty = KEYWORD \<or> ty = IDENTIFIER"
    by blast
  show ?thesis
    by (rule lexemeI [where k = k and errs = "[]" and
        new = "[\<lparr>ttype = ty, tvalue = c # take k (drop (pos st) (source st)), tline = line st,
            tcolumn = column st - 1, tlength = Suc k\<rparr>]"])
       (use k assms in \<open>auto simp add: emitted_def tokenPos_def\<close>)
qed

lemma lexeme_lineComment:
  assumes "peek st = CHR ''/''"
  shows "lexeme (CHR ''/'') st (lineComment st)"
proof -
  from assms have lt: "pos st < length (source st)"
    by (auto simp: peek_def isAtEnd_def split: if_splits)
  from assms lt have nth: "source st ! pos st = CHR ''/''"
    by (auto simp: peek_def isAtEnd_def split: if_splits)
  from lineComment_closed [OF lt] obtain k where k: "lineComment st =
     st\<lparr>column := column st + 1 + int k, pos := pos st + 1 + k,
        tokens := tokens st @
          [\<lparr>ttype = COMMENT, tvalue = ''//'' @ take k (drop (Suc (pos st)) (source st)),
            tline = line st, tcolumn = column st - 1, tlength = k + 2\<rparr>]\<rparr>"
     "pos st + 1 + k \<le> length (source st)"
    by blast
  show ?thesis
    by (rule lexemeI [where k = "Suc k" and errs = "[]" and
        new = "[\<lparr>ttype = COMMENT, tvalue = ''//'' @ take k (drop (Suc (pos st)) (source st)),
            tline = line st, tcolumn = column st - 1, tlength = k + 2\<rparr>]"])
       (use k lt nth in \<open>simp_all add: emitted_def tokenPos_def isQuote_def take_Suc_drop\<close>)
qed

lemma lexeme_blockComment:
  assumes "peek st = CHR ''*''"
  shows "lexeme (CHR ''/'') st (blockComment st)"
proof -
  from assms have lt: "pos st < length (source st)"
    by (auto simp: peek_def isAtEnd_def split: if_splits)
  from assms lt have nth: "source st ! pos st = CHR ''*''"
    by (auto simp: peek_def isAtEnd_def split: if_splits)
  from blockComment_closed [OF lt] obtain k l d where k: "blockComment st =
     st\<lparr>line := l, column := d, pos := pos st + 1 + k,
        tokens := tokens st @
          [\<lparr>ttype = COMMENT, tvalue = ''/*'' @ take k (drop (Suc (pos st)) (source st)),
            tline = l, tcolumn = d - int (k + 2), tlength = k + 2\<rparr>]\<rparr>"
     "pos st + 1 + k \<le> length (source st)"
     "line st < l \<or> l = line st \<and> d = column st + 1 + int k"
    by blast
  show ?thesis
    by (rule lexemeI [where k = "Suc k" and errs = "[]" and
        new = "[\<lparr>ttype = COMMENT, tvalue = ''/*'' @ take k (drop (Suc (pos st)) (source st)),
            tline = l, tcolumn = d - int (k + 2), tlength = k + 2\<rparr>]"])
       (use k lt nth in \<open>auto simp add: emitted_def tokenPos_def isQuote_def take_Suc_drop\<close>)
qed

lemma lexeme_stringLit:
  assumes "isQuote c"
  shows "lexeme c st (stringLit c st)"
proof -
  from stringLit_closed [of st c] obtain k l d v where
    ln: "line st < l \<or> l = line st \<and> d = column st + int k" and
    k: "(stringLit c st =
       st\<lparr>line := l, column := d, pos := pos st + k,
          errors := errors st @ [\<lparr>emessage = ''Unterminated string'', eline = l, ecolumn = d\<rparr>]\<rparr> \<and>
       length (source st) \<le> pos st + k) \<or>
     (stringLit c st =
       st\<lparr>line := l, column := d + 1, pos := pos st + k + 1,
          tokens := tokens st @
            [\<lparr>ttype = STRING, tvalue = v, tline = l, tcolumn = d + 1 - int (length v),
              tlength = length v\<rparr>]\<rparr> \<and>
       pos st + k < length (source st) \<and> source st ! (pos st + k) = c \<and> length v \<le> k)"
    by blast
  from k show ?thesis
  proof
    assume a: "stringLit c st =
       st\<lparr>line := l, column := d, pos := pos st + k,
          errors := errors st @ [\<lparr>emessage = ''Unterminated string'', eline = l, ecolumn = d\<rparr>]\<rparr> \<and>
       length (source st) \<le> pos st + k"
    show ?thesis
      by (rule lexemeI [where k = k and new = "[]" and
          errs = "[\<lparr>emessage = ''Unterminated string'', eline = l, ecolumn = d\<rparr>]"])
       (use a ln assms in \<open>auto simp add: emitted_def isAtEnd_def\<close>)
  next
    assume a: "stringLit c st =
       st\<lparr>line := l, column := d + 1, pos := pos st + k + 1,
          tokens := tokens st @
            [\<lparr>ttype = STRING, tvalue = v, tline = l, tcolumn = d + 1 - int (length v),
              tlength = length v\<rparr>]\<rparr> \<and>
       pos st + k < length (source st) \<and> source st ! (pos st + k) = c \<and> length v \<le> k"
    show ?thesis
      by (rule lexemeI [where k = "k + 1" and errs = "[]" and
          new = "[\<lparr>ttype = STRING, tvalue = v, tline = l, tcolumn = d + 1 - int (length v),
              tlength = length v\<rparr>]"])
       (use a ln assms in \<open>auto simp add: emitted_def tokenPos_def\<close>)
  qed
qed

lemma scanChar_lexeme:
  assumes le: "pos st \<le> length (source st)"
  shows "lexeme c st (scanChar c st)"
  unfolding scanChar_def
  using le
  by (simp add: lexeme_single lexeme_double lexeme_double' lexeme_newline lexeme_skip
        lexeme_unexpected lexeme_number lexeme_identifier lexeme_lineComment lexeme_blockComment
        lexeme_stringLit isQuote_def isSpace_def)

lemma scanToken_lexeme:
  assumes "\<not> isAtEnd st"
  shows "scanToken st = scanChar (source st ! pos st) (snd (advance st))"
    and "lexeme (source st ! pos st) (snd (advance st)) (scanToken st)"
proof -
  from assms have lt: "pos st < length (source st)" by (simp add: isAtEnd_def)
  then show eq: "scanToken st = scanChar (source st ! pos st) (snd (advance st))"
    by (simp add: scanToken_def advance_def)
  show "lexeme (source st ! pos st) (snd (advance st)) (scanToken st)"
    unfolding eq using lt by (intro scanChar_lexeme) (simp add: snd_advance)
qed

lemma scanToken_progress:
  assumes "\<not> isAtEnd st"
  shows "source (scanToken st) = source st" and "pos st < pos (scanToken st)"
  using scanToken_lexeme (2) [OF assms] by (auto simp: lexeme_def snd_advance)

subsection \<open>The scan loop and \<open>tokenize\<close>\<close>

function scanLoop :: "Lexer \<Rightarrow> Lexer" where
  "scanLoop st = (if isAtEnd st then st else scanLoop (scanToken st))"
  by pat_completeness auto
termination
proof (relation "measure (\<lambda>st. length (source st) - pos st)")
  show "wf (measure (\<lambda>st. length (source st) - pos st))" by simp
next
  fix st
  assume n: "\<not> isAtEnd st"
  then have "pos st < length (source st)" by (simp add: isAtEnd_def)
  with scanToken_progress [OF n]
  show "(scanToken st, st) \<in> measure (\<lambda>st. length (source st) - pos st)" by simp
qed

declare scanLoop.simps [simp del]

definition tokenize :: "string \<Rightarrow> Token list \<times> LexerError list" where
  "tokenize src =
     (let st = addToken EOF [] (scanLoop (newLexer src)) in (tokens st, errors st))"

lemma scanLoop_rule:
  assumes "I st" and "\<And>s. I s \<Longrightarrow> \<not> isAtEnd s \<Longrightarrow> I (scanToken s)"
  shows "I (scanLoop st) \<and> isAtEnd (scanLoop st)"
  using assms (1)
proof (induction st rule: scanLoop.induct)
  case (1 st)
  show ?case
  proof (cases "isAtEnd st")
    case True
    with "1.prems" show ?thesis by (simp add: scanLoop.simps [of st])
  next
    case False
    from "1.IH" [OF False assms (2) [OF "1.prems" False]] False
    show ?thesis by (simp add: scanLoop.simps [of st])
  qed
qed

subsection \<open>Properties of the token sequence\<close>

lemma tokenize_tokens:
  "fst (tokenize src) = tokens (scanLoop (newLexer src)) @
     [\<lparr>ttype = EOF, tvalue = [], tline = line (scanLoop (newLexer src)),
       tcolumn = column (scanLoop (newLexer src)), tlength = 0\<rparr>]"
  and tokenize_errors: "snd (tokenize src) = errors (scanLoop (newLexer src))"
  by (simp_all add: tokenize_def addToken_def Let_def)

text \<open>
  The loop invariant behind the order of the tokens: they are sorted by position and
  none lies after the running (line, column) of the lexer.
\<close>

definition ordered :: "Lexer \<Rightarrow> bool" where
  "ordered st \<longleftrightarrow>
     sorted (map tokenPos (tokens st)) \<and>
     (\<forall>t \<in> set (tokens st). tokenPos t \<le> (line st, column st))"

lemma ordered_scanToken:
  assumes "ordered st" "\<not> isAtEnd st"
  shows "ordered (scanToken st)"
proof -
  let ?st1 = "snd (advance st)" and ?st' = "scanToken st"
  from scanToken_lexeme (2) [OF assms (2)] obtain k new errs where
    tk: "tokens ?st' = tokens ?st1 @ new" and
    ln: "line ?st1 < line ?st' \<or> line ?st' = line ?st1 \<and> column ?st' = column ?st1 + int k" and
    em: "emitted (source st ! pos st) ?st1 ?st' k new errs"
    unfolding lexeme_def by blast
  have start: "(line ?st1, column ?st1 - 1) = (line st, column st)"
    by (simp add: snd_advance)
  have fwd: "(line st, column st) \<le> (line ?st', column ?st')"
    using ln by (auto simp: snd_advance)
  have old: "tokenPos t \<le> (line ?st', column ?st')" if "t \<in> set (tokens st)" for t
    using assms (1) that fwd unfolding ordered_def by (blast intro: order_trans)
  from em have "new = [] \<or> (\<exists>t. new = [t] \<and> (line st, column st) \<le> tokenPos t \<and>
      tokenPos t \<le> (line ?st', column ?st'))"
    unfolding emitted_def start by blast
  then show ?thesis
  proof
    assume "new = []"
    with tk old assms (1) show ?thesis by (simp add: ordered_def snd_advance)
  next
    assume "\<exists>t. new = [t] \<and> (line st, column st) \<le> tokenPos t \<and>
      tokenPos t \<le> (line ?st', column ?st')"
    then obtain t where t: "new = [t]" "(line st, column st) \<le> tokenPos t"
      "tokenPos t \<le> (line ?st', column ?st')" by blast
    have "\<forall>u \<in> set (tokens st). tokenPos u \<le> tokenPos t"
      using assms (1) t (2) unfolding ordered_def by (blast intro: order_trans)
    then have "sorted (map tokenPos (tokens st @ [t]))"
      using assms (1) by (simp add: ordered_def sorted_append)
    then show ?thesis
      using tk t old by (auto simp: ordered_def snd_advance)
  qed
qed

lemma ordered_scanLoop: "ordered (scanLoop (newLexer src))"
  using scanLoop_rule [of ordered "newLexer src"] ordered_scanToken
  by (simp add: ordered_def newLexer_def)

lemma tokenize_last_EOF:
  "fst (tokenize src) \<noteq> [] \<and> ttype (last (fst (tokenize src))) = EOF"
  by (simp add: tokenize_tokens)

text \<open>
  Claim C2. \<open>tokenize\<close> is a total function: its loops are defined by well-founded
  recursion on the number of characters left, and no operation of the lexer can raise.
  For every input string the token sequence it returns is not empty and its last token
  has kind \<open>EOF\<close>.
\<close>

theorem tokenize_total_ends_with_EOF:
  "fst (tokenize src) \<noteq> [] \<and> ttype (last (fst (tokenize src))) = EOF"
  by (simp add: tokenize_tokens)

text \<open>
  Claim C4. For every input string the tokens come in non-decreasing order of
  (line, column), compared lexicographically, and the last one is the \<open>EOF\<close> token.
\<close>

theorem tokenize_positions_sorted:
  "sorted (map tokenPos (fst (tokenize src))) \<and> ttype (last (fst (tokenize src))) = EOF"
proof -
  have "sorted (map tokenPos (fst (tokenize src)))"
    using ordered_scanLoop [of src]
    by (simp add: tokenize_tokens ordered_def sorted_append tokenPos_def)
  then show ?thesis by (simp add: tokenize_last_EOF)
qed

text \<open>
  The order is not strict: the text of an empty string literal has length 0, and its
  token and the next one get the same position.
\<close>

lemma positions_not_strictly_increasing:
  "map tokenPos (fst (tokenize [CHR 0x22, CHR 0x22])) = [(1, 3), (1, 3)]"
  by code_simp

definition noTemplateText :: "Token list \<Rightarrow> bool" where
  "noTemplateText toks \<longleftrightarrow> TEMPLATE_TEXT \<notin> ttype ` set toks"

lemma noTemplateText_scanToken:
  assumes "noTemplateText (tokens st)" "\<not> isAtEnd st"
  shows "noTemplateText (tokens (scanToken st))"
proof -
  let ?st1 = "snd (advance st)" and ?st' = "scanToken st"
  from scanToken_lexeme (2) [OF assms (2)] obtain k new errs where
    tk: "tokens ?st' = tokens ?st1 @ new" and
    em: "emitted (source st ! pos st) ?st1 ?st' k new errs"
    unfolding lexeme_def by blast
  from em have "new = [] \<or> (\<exists>t. new = [t] \<and> ttype t \<noteq> TEMPLATE_TEXT)"
    unfolding emitted_def by blast
  with tk assms (1) show ?thesis
    by (auto simp: noTemplateText_def snd_advance)
qed

lemma noTemplateText_tokenize: "noTemplateText (fst (tokenize src))"
proof -
  have "noTemplateText (tokens (scanLoop (newLexer src)))"
    using scanLoop_rule [of "\<lambda>s. noTemplateText (tokens s)" "newLexer src"]
      noTemplateText_scanToken
    by (simp add: noTemplateText_def newLexer_def)
  then show ?thesis by (simp add: tokenize_tokens noTemplateText_def)
qed

lemma scanChar_quote: "isQuote q \<Longrightarrow> scanChar q st = stringLit q st"
  unfolding isQuote_def by (elim disjE) (simp_all add: scanChar_def)

subsection \<open>Strings that run out of input\<close>

text \<open>
  \<open>closingQuote q cs\<close> reads the text \<open>cs\<close> that follows an opening quote the way
  \<open>string\<close> does, a backslash taking the next character with it, and gives the number
  of characters before the quote \<open>q\<close> that closes the literal; it is \<^const>\<open>None\<close> when the
  text ends before such a quote, also when the last quote of the text is escaped.
\<close>

fun closingQuote :: "char \<Rightarrow> string \<Rightarrow> nat option" where
  "closingQuote q [] = None"
| "closingQuote q [c] = (if c = q then Some 0 else None)"
| "closingQuote q (c # e # rest) =
     (if c = q then Some 0
      else if c = CHR 0x5C then map_option (\<lambda>k. k + 2) (closingQuote q rest)
      else map_option Suc (closingQuote q (e # rest)))"

lemma closingQuote_drop:
  assumes "p < length xs"
  shows "closingQuote q (drop p xs) =
     (if xs ! p = q then Some 0
      else if xs ! p = CHR 0x5C then
        (if Suc p < length xs then map_option (\<lambda>k. k + 2) (closingQuote q (drop (p + 2) xs))
         else None)
      else map_option Suc (closingQuote q (drop (Suc p) xs)))"
proof (cases "Suc p < length xs")
  case True
  have d1: "drop (Suc p) xs = xs ! Suc p # drop (Suc (Suc p)) xs"
    using True by (simp add: Cons_nth_drop_Suc)
  have d0: "drop p xs = xs ! p # drop (Suc p) xs"
    using assms by (simp add: Cons_nth_drop_Suc)
  show ?thesis
    using True by (simp add: d0 d1)
next
  case False
  with assms have "drop p xs = [xs ! p]" "drop (Suc p) xs = []"
    by (simp_all add: Cons_nth_drop_Suc [symmetric])
  with False show ?thesis by simp
qed

text \<open>The loop of \<open>string\<close> stops at the closing quote, or at the end when there is none.\<close>

lemma stringLoop_closing:
  "stringLoop q v st = (v', st') \<Longrightarrow>
   (case closingQuote q (drop (pos st) (source st)) of
      None \<Rightarrow> isAtEnd st'
    | Some k \<Rightarrow> pos st' = pos st + k \<and> \<not> isAtEnd st')"
proof (induction q v st arbitrary: v' st' rule: stringLoop.induct)
  case (1 q v st)
  from stringLoop_closed [OF "1.prems"] have src': "source st' = source st" by auto
  show ?case
  proof (cases "\<not> isAtEnd st \<and> peek st \<noteq> q")
    case False
    with "1.prems" have eq: "st' = st" by (simp add: stringLoop.simps [of q v st])
    show ?thesis
    proof (cases "isAtEnd st")
      case True
      then show ?thesis by (simp add: eq isAtEnd_def)
    next
      case e: False
      with False have "peek st = q" by simp
      with e have "pos st < length (source st)" "source st ! pos st = q"
        by (auto simp: isAtEnd_def peek_def)
      then show ?thesis
        using e by (simp add: eq closingQuote_drop [of "pos st" "source st" q])
    qed
  next
    case True
    then have lt: "pos st < length (source st)" and nq: "source st ! pos st \<noteq> q"
      by (auto simp: isAtEnd_def peek_def)
    define st1 where "st1 = (if peek st = CHR 0x0A then st\<lparr>line := line st + 1, column := 1\<rparr> else st)"
    have src1: "source st1 = source st" "pos st1 = pos st" "peek st1 = peek st"
      by (simp_all add: st1_def peek_def isAtEnd_def)
    note cq = closingQuote_drop [OF lt, of q]
    show ?thesis
    proof (cases "peek st1 = CHR 0x5C")
      case esc: True
      define st2 where "st2 = snd (advance st1)"
      obtain e st3 where adv: "advance st2 = (e, st3)" by force
      have st3: "source st3 = source st" "pos st3 = pos st + 2"
        using advance_eq [OF adv] by (simp_all add: st2_def snd_advance src1)
      from esc lt have bs: "source st ! pos st = CHR 0x5C"
        by (simp add: src1 peek_def isAtEnd_def)
      from "1.prems" True esc adv have "stringLoop q (v @ escapedText e) st3 = (v', st')"
        by (simp add: stringLoop.simps [of q v st] st1_def [symmetric] st2_def [symmetric])
      from "1.IH" (1) [OF True st1_def esc st2_def refl adv [symmetric] this]
      have ih: "case closingQuote q (drop (pos st + 2) (source st)) of
          None \<Rightarrow> isAtEnd st' | Some k \<Rightarrow> pos st' = pos st + 2 + k \<and> \<not> isAtEnd st'"
        by (simp add: st3 split: option.splits)
      show ?thesis
        using ih lt nq bs src' unfolding cq
        by (auto simp: isAtEnd_def split: option.splits)
    next
      case noesc: False
      obtain c st2 where adv: "advance st1 = (c, st2)" by force
      from advance_eq [OF adv] src1
      have st2: "source st2 = source st" "pos st2 = pos st + 1" by simp_all
      from noesc lt have bs: "source st ! pos st \<noteq> CHR 0x5C"
        by (simp add: src1 peek_def isAtEnd_def)
      from "1.prems" True noesc adv have "stringLoop q (v @ appended c) st2 = (v', st')"
        by (simp add: stringLoop.simps [of q v st] st1_def [symmetric])
      from "1.IH" (2) [OF True st1_def noesc refl adv [symmetric] this]
      have ih: "case closingQuote q (drop (Suc (pos st)) (source st)) of
          None \<Rightarrow> isAtEnd st' | Some k \<Rightarrow> pos st' = pos st + 1 + k \<and> \<not> isAtEnd st'"
        by (simp add: st2 split: option.splits)
      show ?thesis
        using ih lt nq bs src' unfolding cq
        by (auto simp: isAtEnd_def split: option.splits)
    qed
  qed
qed

lemma stringLit_cases:
  "(closingQuote q (drop (pos st) (source st)) = None \<longrightarrow>
      isAtEnd (stringLit q st) \<and> tokens (stringLit q st) = tokens st \<and>
      errors (stringLit q st) =
        errors st @ [\<lparr>emessage = ''Unterminated string'', eline = line (stringLit q st),
          ecolumn = column (stringLit q st)\<rparr>]) \<and>
   (\<forall>k. closingQuote q (drop (pos st) (source st)) = Some k \<longrightarrow>
      pos (stringLit q st) = pos st + k + 1 \<and> errors (stringLit q st) = errors st \<and>
      (\<exists>t. tokens (stringLit q st) = tokens st @ [t] \<and> ttype t = STRING))"
proof -
  obtain v st1 where d1: "stringLoop q [] st = (v, st1)" by force
  from stringLoop_closed [OF d1] obtain k l d where
    st1: "st1 = st\<lparr>line := l, column := d, pos := pos st + k\<rparr>" by auto
  note c = stringLoop_closing [OF d1]
  show ?thesis
  proof (cases "closingQuote q (drop (pos st) (source st))")
    case None
    with c have "isAtEnd st1" by simp
    then have "stringLit q st = pushError ''Unterminated string'' (line st1) (column st1) st1"
      using d1 by (simp add: stringLit_def)
    with None \<open>isAtEnd st1\<close> show ?thesis
      by (simp add: pushError_def isAtEnd_def st1)
  next
    case (Some j)
    with c have j: "pos st1 = pos st + j" "\<not> isAtEnd st1" by simp_all
    then have "stringLit q st = addToken STRING v (snd (advance st1))"
      using d1 by (simp add: stringLit_def)
    with Some j show ?thesis
      by (simp add: addToken_def snd_advance st1)
  qed
qed

text \<open>
  Claim C7. The input \<open>"abc\<close> gives exactly one lexical error, \<open>Unterminated string\<close>,
  and no token but \<open>EOF\<close>. In general, from any state of the lexer and for any quote:
  when the rest of the input has no closing quote, \<open>string\<close> ends at the end of the
  input, leaves the tokens as they are and appends that one error, at the line and
  column where it stopped; when it has one, \<open>string\<close> stops just past it, appends one
  \<open>STRING\<close> token and no error. So an input that opens a string it never closes gives
  that one error and the \<open>EOF\<close> token alone. The witness runs out of input behind an
  escaped quote.
\<close>

theorem unterminated_string:
  \<open>tokenize ''"abc'' =
     ([\<lparr>ttype = EOF, tvalue = [], tline = 1, tcolumn = 5, tlength = 0\<rparr>],
      [\<lparr>emessage = ''Unterminated string'', eline = 1, ecolumn = 5\<rparr>]) \<and>
   (closingQuote q (drop (pos st) (source st)) = None \<longrightarrow>
      isAtEnd (stringLit q st) \<and> tokens (stringLit q st) = tokens st \<and>
      errors (stringLit q st) =
        errors st @ [\<lparr>emessage = ''Unterminated string'', eline = line (stringLit q st),
          ecolumn = column (stringLit q st)\<rparr>]) \<and>
   (\<forall>k. closingQuote q (drop (pos st) (source st)) = Some k \<longrightarrow>
      pos (stringLit q st) = pos st + k + 1 \<and> errors (stringLit q st) = errors st \<and>
      (\<exists>t. tokens (stringLit q st) = tokens st @ [t] \<and> ttype t = STRING)) \<and>
   (isQuote q \<and> closingQuote q body = None \<longrightarrow>
      (\<exists>l d. tokenize (q # body) =
         ([\<lparr>ttype = EOF, tvalue = [], tline = l, tcolumn = d, tlength = 0\<rparr>],
          [\<lparr>emessage = ''Unterminated string'', eline = l, ecolumn = d\<rparr>])))\<close>
proof (intro conjI)
  show \<open>tokenize ''"abc'' =
     ([\<lparr>ttype = EOF, tvalue = [], tline = 1, tcolumn = 5, tlength = 0\<rparr>],
      [\<lparr>emessage = ''Unterminated string'', eline = 1, ecolumn = 5\<rparr>])\<close>
    by code_simp
  show "closingQuote q (drop (pos st) (source st)) = None \<longrightarrow>
      isAtEnd (stringLit q st) \<and> tokens (stringLit q st) = tokens st \<and>
      errors (stringLit q st) =
        errors st @ [\<lparr>emessage = ''Unterminated string'', eline = line (stringLit q st),
          ecolumn = column (stringLit q st)\<rparr>]"
    using stringLit_cases [of q st] by blast
  show "\<forall>k. closingQuote q (drop (pos st) (source st)) = Some k \<longrightarrow>
      pos (stringLit q st) = pos st + k + 1 \<and> errors (stringLit q st) = errors st \<and>
      (\<exists>t. tokens (stringLit q st) = tokens st @ [t] \<and> ttype t = STRING)"
    using stringLit_cases [of q st] by blast
  show "isQuote q \<and> closingQuote q body = None \<longrightarrow>
      (\<exists>l d. tokenize (q # body) =
         ([\<lparr>ttype = EOF, tvalue = [], tline = l, tcolumn = d, tlength = 0\<rparr>],
          [\<lparr>emessage = ''Unterminated string'', eline = l, ecolumn = d\<rparr>]))"
  proof
    assume a: "isQuote q \<and> closingQuote q body = None"
    let ?st0 = "newLexer (q # body)"
    let ?st1 = "snd (advance ?st0)"
    let ?st2 = "stringLit q ?st1"
    have n0: "\<not> isAtEnd ?st0" by (simp add: isAtEnd_def newLexer_def)
    have "scanToken ?st0 = scanChar q ?st1"
      using scanToken_lexeme (1) [OF n0] by (simp add: newLexer_def)
    also have "\<dots> = ?st2"
      using a by (simp add: scanChar_quote)
    finally have sc: "scanToken ?st0 = ?st2" .
    have "closingQuote q (drop (pos ?st1) (source ?st1)) = None"
      using a by (simp add: snd_advance newLexer_def)
    with stringLit_cases [of q ?st1]
    have e: "isAtEnd ?st2" and t: "tokens ?st2 = tokens ?st1" and
      r: "errors ?st2 = errors ?st1 @ [\<lparr>emessage = ''Unterminated string'',
        eline = line ?st2, ecolumn = column ?st2\<rparr>]"
      by blast+
    have "scanLoop ?st0 = scanLoop ?st2"
      using n0 sc by (simp add: scanLoop.simps [of ?st0])
    also have "\<dots> = ?st2"
      using e by (simp add: scanLoop.simps [of ?st2])
    finally have loop: "scanLoop ?st0 = ?st2" .
    have "tokens ?st1 = []" "errors ?st1 = []" by (simp_all add: snd_advance newLexer_def)
    with t r have "tokenize (q # body) =
         ([\<lparr>ttype = EOF, tvalue = [], tline = line ?st2, tcolumn = column ?st2, tlength = 0\<rparr>],
          [\<lparr>emessage = ''Unterminated string'', eline = line ?st2, ecolumn = column ?st2\<rparr>])"
      by (simp add: tokenize_def Let_def addToken_def loop)
    then show "\<exists>l d. tokenize (q # body) =
         ([\<lparr>ttype = EOF, tvalue = [], tline = l, tcolumn = d, tlength = 0\<rparr>],
          [\<lparr>emessage = ''Unterminated string'', eline = l, ecolumn = d\<rparr>])"
      by blast
  qed
qed

theorem unterminated_string_witness:
  "isQuote (CHR 0x22) \<and>
   closingQuote (CHR 0x22) [CHR ''a'', CHR 0x5C, CHR 0x22] = None \<and>
   tokenize [CHR 0x22, CHR ''a'', CHR 0x5C, CHR 0x22] =
     ([\<lparr>ttype = EOF, tvalue = [], tline = 1, tcolumn = 5, tlength = 0\<rparr>],
      [\<lparr>emessage = ''Unterminated string'', eline = 1, ecolumn = 5\<rparr>]) \<and>
   closingQuote (CHR 0x22)
     (drop (pos (snd (advance (newLexer [CHR 0x22, CHR ''a'', CHR 0x5C, CHR 0x22]))))
        (source (snd (advance (newLexer [CHR 0x22, CHR ''a'', CHR 0x5C, CHR 0x22]))))) = None \<and>
   isAtEnd (stringLit (CHR 0x22)
     (snd (advance (newLexer [CHR 0x22, CHR ''a'', CHR 0x5C, CHR 0x22])))) \<and>
   tokens (stringLit (CHR 0x22)
     (snd (advance (newLexer [CHR 0x22, CHR ''a'', CHR 0x5C, CHR 0x22])))) = [] \<and>
   closingQuote (CHR 0x22)
     (drop (pos (snd (advance (newLexer [CHR 0x22, CHR ''a'', CHR 0x22]))))
        (source (snd (advance (newLexer [CHR 0x22, CHR ''a'', CHR 0x22]))))) = Some 1 \<and>
   pos (stringLit (CHR 0x22) (snd (advance (newLexer [CHR 0x22, CHR ''a'', CHR 0x22])))) = 3 \<and>
   errors (stringLit (CHR 0x22) (snd (advance (newLexer [CHR 0x22, CHR ''a'', CHR 0x22])))) = []"
proof -
  let ?body = "[CHR ''a'', CHR 0x5C, CHR 0x22]"
  let ?open = "snd (advance (newLexer (CHR 0x22 # ?body)))"
  let ?closed = "snd (advance (newLexer [CHR 0x22, CHR ''a'', CHR 0x22]))"
  have c: "isQuote (CHR 0x22)" "closingQuote (CHR 0x22) ?body = None"
    by (simp_all add: isQuote_def)
  have o: "closingQuote (CHR 0x22) (drop (pos ?open) (source ?open)) = None"
    "tokens ?open = []"
    by (simp_all add: snd_advance newLexer_def)
  have d: "closingQuote (CHR 0x22) (drop (pos ?closed) (source ?closed)) = Some 1"
    "pos ?closed = 1" "errors ?closed = []"
    by (simp_all add: snd_advance newLexer_def)
  have v: "tokenize (CHR 0x22 # ?body) =
     ([\<lparr>ttype = EOF, tvalue = [], tline = 1, tcolumn = 5, tlength = 0\<rparr>],
      [\<lparr>emessage = ''Unterminated string'', eline = 1, ecolumn = 5\<rparr>])"
    by code_simp
  note first = unterminated_string [of "CHR 0x22" ?open ?body]
  note second = unterminated_string [of "CHR 0x22" ?closed ?body]
  from first c have "\<exists>l d. tokenize (CHR 0x22 # ?body) =
         ([\<lparr>ttype = EOF, tvalue = [], tline = l, tcolumn = d, tlength = 0\<rparr>],
          [\<lparr>emessage = ''Unterminated string'', eline = l, ecolumn = d\<rparr>])"
    by blast
  moreover from first o have "isAtEnd (stringLit (CHR 0x22) ?open) \<and>
      tokens (stringLit (CHR 0x22) ?open) = tokens ?open"
    by blast
  moreover from second d have "pos (stringLit (CHR 0x22) ?closed) = pos ?closed + 1 + 1 \<and>
      errors (stringLit (CHR 0x22) ?closed) = errors ?closed"
    by blast
  ultimately show ?thesis using c o d v by simp
qed

subsection \<open>The column of a string token\<close>

text \<open>
  Claim C5. \<open>addToken\<close> computes a token's column as the running column minus the length
  of the token's text. For a string literal the text leaves out the two quotes (and
  counts an escape sequence as one character), so the column is not that of the token's
  first character: the source \<open>"abc"\<close> starts at column 1 and its token says column 3.
\<close>

theorem string_token_column:
  \<open>tokenize ''"abc"'' =
     ([\<lparr>ttype = STRING, tvalue = ''abc'', tline = 1, tcolumn = 3, tlength = 3\<rparr>,
       \<lparr>ttype = EOF, tvalue = [], tline = 1, tcolumn = 6, tlength = 0\<rparr>], [])\<close>
  by code_simp

subsection \<open>Round trip\<close>

text \<open>
  \<open>recon amp txt n src\<close>: the text \<open>src\<close> is \<open>txt\<close> with characters inserted, each of them
  either white space (space, tab, carriage return; a newline is a token of its own) or
  one of \<open>n\<close> further characters or, when \<open>amp\<close> is set, an \<open>&\<close> that is not followed by
  another \<open>&\<close>. \<open>roundTrip src\<close> says so, with \<open>amp\<close> not set, of the concatenated token
  texts and the number of recorded lexical errors: every character of the source is in
  a token's text, or is white space, or has an error of its own.
  \<open>roundTripButAmpersand\<close> says the same with \<open>amp\<close> set: it says nothing of what becomes
  of an \<open>&\<close> that stands alone.
\<close>

definition loneAmpersand :: "char \<Rightarrow> string \<Rightarrow> bool" where
  "loneAmpersand c cs \<longleftrightarrow> c = CHR ''&'' \<and> (case cs of [] \<Rightarrow> True | d # ds \<Rightarrow> d \<noteq> CHR ''&'')"

fun recon :: "bool \<Rightarrow> string \<Rightarrow> nat \<Rightarrow> string \<Rightarrow> bool" where
  "recon amp txt n [] \<longleftrightarrow> txt = [] \<and> n = 0"
| "recon amp txt n (c # cs) \<longleftrightarrow>
     (case txt of [] \<Rightarrow> False | x # xs \<Rightarrow> x = c \<and> recon amp xs n cs) \<or>
     ((isSpace c \<or> amp \<and> loneAmpersand c cs) \<and> recon amp txt n cs) \<or>
     (case n of 0 \<Rightarrow> False | Suc m \<Rightarrow> recon amp txt m cs)"

definition roundTrip :: "string \<Rightarrow> bool" where
  "roundTrip src \<longleftrightarrow>
     recon False (concat (map tvalue (fst (tokenize src)))) (length (snd (tokenize src))) src"

definition roundTripButAmpersand :: "string \<Rightarrow> bool" where
  "roundTripButAmpersand src \<longleftrightarrow>
     recon True (concat (map tvalue (fst (tokenize src)))) (length (snd (tokenize src))) src"

text \<open>
  One call of \<open>scanToken\<close> on a character that is not a quote: what it appends accounts
  for the characters it consumes, in front of whatever accounts for the rest.
\<close>

lemma recon_prepend: "recon amp txt n cs \<Longrightarrow> recon amp (x @ txt) n (x @ cs)"
  by (induction x) simp_all

lemma scanChar_ampersand:
  "scanChar (CHR ''&'') st =
     (if peek st = CHR ''&'' then addToken AND ''&&'' (snd (advance st)) else st)"
  by (simp add: scanChar_def)

lemma lexeme_recon:
  assumes n: "\<not> isAtEnd st" and nq: "\<not> isQuote (source st ! pos st)"
  shows "\<exists>new errs. tokens (scanToken st) = tokens st @ new \<and>
      errors (scanToken st) = errors st @ errs \<and>
      source (scanToken st) = source st \<and> pos (scanToken st) \<le> length (source st) \<and>
      (\<forall>txt m. recon True txt m (drop (pos (scanToken st)) (source st)) \<longrightarrow>
          recon True (concat (map tvalue new) @ txt) (length errs + m)
            (drop (pos st) (source st)))"
proof -
  let ?st1 = "snd (advance st)" and ?st' = "scanToken st" and ?src = "source st"
  let ?c = "?src ! pos st"
  from n have lt: "pos st < length ?src" by (simp add: isAtEnd_def)
  then have d0: "drop (pos st) ?src = ?c # drop (Suc (pos st)) ?src"
    by (simp add: Cons_nth_drop_Suc)
  note eq = scanToken_lexeme (1) [OF n]
  show ?thesis
  proof (cases "?c = CHR ''&''")
    case amp: True
    show ?thesis
    proof (cases "peek ?st1 = CHR ''&''")
      case True
      then have lt2: "Suc (pos st) < length ?src" and c2: "?src ! Suc (pos st) = CHR ''&''"
        by (auto simp: peek_def isAtEnd_def snd_advance split: if_splits)
      then have d1: "drop (Suc (pos st)) ?src = CHR ''&'' # drop (Suc (Suc (pos st))) ?src"
        by (simp add: Cons_nth_drop_Suc [symmetric])
      have s: "?st' = addToken AND ''&&'' (snd (advance ?st1))"
        using eq amp True by (simp add: scanChar_ampersand)
      show ?thesis
        by (intro exI [of _ "[\<lparr>ttype = AND, tvalue = ''&&'', tline = line st,
              tcolumn = column st, tlength = 2\<rparr>]"] exI [of _ "[]"])
           (use lt2 amp in \<open>simp add: s addToken_def snd_advance d0 d1\<close>)
    next
      case False
      then have "loneAmpersand ?c (drop (Suc (pos st)) ?src)"
        using amp
        by (cases "drop (Suc (pos st)) ?src")
           (auto simp: loneAmpersand_def peek_def isAtEnd_def snd_advance
              Cons_nth_drop_Suc [symmetric] hd_drop_conv_nth split: if_splits)
      moreover have s: "?st' = ?st1"
        using eq amp False by (simp add: scanChar_ampersand)
      ultimately show ?thesis
        by (intro exI [of _ "[]"]) (use lt in \<open>simp add: s snd_advance d0\<close>)
    qed
  next
    case noamp: False
    from scanToken_lexeme (2) [OF n] obtain k new errs where
      s': "source ?st' = ?src" and p': "pos ?st' = pos st + 1 + k" and
      tk: "tokens ?st' = tokens st @ new" and er: "errors ?st' = errors st @ errs" and
      em: "emitted ?c ?st1 ?st' k new errs"
      unfolding lexeme_def by (auto simp: snd_advance)
    from em nq noamp consider
        (skip) "new = []" "errs = []" "k = 0" "isSpace ?c"
      | (unexpected) e where "new = []" "errs = [e]" "k = 0"
      | (token) t where "new = [t]" "errs = []"
          "tvalue t = ?c # take k (drop (Suc (pos st)) ?src)"
          "pos st + 1 + k \<le> length ?src"
      unfolding emitted_def by (auto simp: snd_advance)
    then show ?thesis
    proof cases
      case skip
      with lt s' p' tk er show ?thesis by (simp add: d0)
    next
      case unexpected
      with lt s' p' tk er show ?thesis by (simp add: d0)
    next
      case token
      define r where "r = drop (Suc (pos st)) ?src"
      have "drop (pos st + 1 + k) ?src = drop k r"
        by (simp add: r_def add.commute)
      moreover have "drop (pos st) ?src = ?c # r" "tvalue t = ?c # take k r"
        using token (3) d0 by (simp_all add: r_def)
      ultimately have "drop (pos st) ?src = tvalue t @ drop (pos st + 1 + k) ?src"
        by simp
      with s' p' tk er token (1,2,4) show ?thesis
        by (simp add: recon_prepend)
    qed
  qed
qed

text \<open>The scan loop only ever appends tokens and errors.\<close>

lemma scanLoop_grows:
  "\<exists>new errs. tokens (scanLoop st) = tokens st @ new \<and> errors (scanLoop st) = errors st @ errs"
proof (induction st rule: scanLoop.induct)
  case (1 st)
  show ?case
  proof (cases "isAtEnd st")
    case True
    then show ?thesis by (simp add: scanLoop.simps [of st])
  next
    case False
    from scanToken_lexeme (2) [OF False] obtain new1 errs1 where
      "tokens (scanToken st) = tokens st @ new1" "errors (scanToken st) = errors st @ errs1"
      unfolding lexeme_def by (auto simp: snd_advance)
    moreover from "1.IH" [OF False] obtain new2 errs2 where
      "tokens (scanLoop (scanToken st)) = tokens (scanToken st) @ new2"
      "errors (scanLoop (scanToken st)) = errors (scanToken st) @ errs2" by blast
    ultimately show ?thesis using False by (simp add: scanLoop.simps [of st])
  qed
qed

lemma scanLoop_recon:
  assumes step: "\<And>s. P s \<Longrightarrow> \<not> isAtEnd s \<Longrightarrow> \<not> isQuote (source s ! pos s) \<and> P (scanToken s)"
  shows "P st \<Longrightarrow>
     \<exists>new errs. tokens (scanLoop st) = tokens st @ new \<and>
       errors (scanLoop st) = errors st @ errs \<and>
       recon True (concat (map tvalue new)) (length errs) (drop (pos st) (source st))"
proof (induction st rule: scanLoop.induct)
  case (1 st)
  show ?case
  proof (cases "isAtEnd st")
    case True
    then show ?thesis by (simp add: scanLoop.simps [of st] isAtEnd_def)
  next
    case False
    from step [OF "1.prems" False] have nq: "\<not> isQuote (source st ! pos st)"
      and P': "P (scanToken st)" by simp_all
    from lexeme_recon [OF False nq] obtain new1 errs1 where
      l: "tokens (scanToken st) = tokens st @ new1" "errors (scanToken st) = errors st @ errs1"
        "source (scanToken st) = source st"
        "\<And>txt m. recon True txt m (drop (pos (scanToken st)) (source st)) \<Longrightarrow>
          recon True (concat (map tvalue new1) @ txt) (length errs1 + m)
            (drop (pos st) (source st))"
      by blast
    from "1.IH" [OF False P'] obtain new2 errs2 where
      r: "tokens (scanLoop (scanToken st)) = tokens (scanToken st) @ new2"
        "errors (scanLoop (scanToken st)) = errors (scanToken st) @ errs2"
        "recon True (concat (map tvalue new2)) (length errs2)
          (drop (pos (scanToken st)) (source (scanToken st)))"
      by blast
    from l (4) [of "concat (map tvalue new2)" "length errs2"] r (3) l (3)
    have "recon True (concat (map tvalue (new1 @ new2))) (length (errs1 @ errs2))
        (drop (pos st) (source st))" by simp
    with l r False show ?thesis
      by (intro exI [of _ "new1 @ new2"] exI [of _ "errs1 @ errs2"])
         (simp add: scanLoop.simps [of st])
  qed
qed

text \<open>
  A quote met by \<open>scanToken\<close> shows in the result: as a \<open>STRING\<close> token, or as the error
  of a string that is not terminated.
\<close>

lemma quote_scanned:
  assumes n: "\<not> isAtEnd st" and q: "isQuote (source st ! pos st)"
  shows "(\<exists>t \<in> set (tokens (scanLoop st)). ttype t = STRING) \<or>
    (\<exists>e \<in> set (errors (scanLoop st)). emessage e = ''Unterminated string'')"
proof -
  from scanToken_lexeme (2) [OF n] obtain k new errs where
    tk: "tokens (scanToken st) = tokens st @ new" and
    er: "errors (scanToken st) = errors st @ errs" and
    em: "emitted (source st ! pos st) (snd (advance st)) (scanToken st) k new errs"
    unfolding lexeme_def by (auto simp: snd_advance)
  from em q have "(\<exists>t \<in> set new. ttype t = STRING) \<or>
      (\<exists>e \<in> set errs. emessage e = ''Unterminated string'')"
    unfolding emitted_def isQuote_def isSpace_def by auto
  moreover from scanLoop_grows [of "scanToken st"] obtain new2 errs2 where
    "tokens (scanLoop (scanToken st)) = tokens (scanToken st) @ new2"
    "errors (scanLoop (scanToken st)) = errors (scanToken st) @ errs2" by blast
  ultimately show ?thesis
    using n tk er by (auto simp: scanLoop.simps [of st])
qed

text \<open>
  Claim C3, as stated, fails on any string literal: the token of \<open>"a"\<close> has the text
  \<open>a\<close>, the two quotes are in no token and no error is recorded. It also fails on an
  \<open>&\<close> that stands alone, which \<open>scanToken\<close> drops without a token or an error.
\<close>

theorem roundTrip_counterexample: \<open>\<not> roundTrip ''"a"'' \<and> \<not> roundTrip ''&''\<close>
proof -
  have \<open>tokenize ''"a"'' =
     ([\<lparr>ttype = STRING, tvalue = ''a'', tline = 1, tcolumn = 3, tlength = 1\<rparr>,
       \<lparr>ttype = EOF, tvalue = [], tline = 1, tcolumn = 4, tlength = 0\<rparr>], [])\<close>
    by code_simp
  moreover have \<open>tokenize ''&'' =
     ([\<lparr>ttype = EOF, tvalue = [], tline = 1, tcolumn = 2, tlength = 0\<rparr>], [])\<close>
    by code_simp
  ultimately show ?thesis by (simp add: roundTrip_def isSpace_def)
qed

text \<open>
  Claim C3, amended. For every input string in which the lexer scans no string literal
  (it emits no \<open>STRING\<close> token and no \<open>Unterminated string\<close> error), and so for every
  input string without a quote character, the token texts together with the white
  space of the source reconstruct the source, each remaining character having a
  lexical error of its own; nothing is said of an \<open>&\<close> that is not followed by another
  \<open>&\<close>. The witness has quotes inside a comment, and \<open>&&\<close> next to a single \<open>&\<close>.
\<close>

theorem roundTrip_without_strings:
  "((\<forall>t \<in> set (fst (tokenize src)). ttype t \<noteq> STRING) \<and>
    (\<forall>e \<in> set (snd (tokenize src)). emessage e \<noteq> ''Unterminated string'') \<longrightarrow>
      roundTripButAmpersand src) \<and>
   (CHR 0x22 \<notin> set src \<and> CHR 0x27 \<notin> set src \<longrightarrow> roundTripButAmpersand src)"
proof (intro conjI impI)
  let ?end = "scanLoop (newLexer src)"
  have fin: "roundTripButAmpersand src"
    if "\<exists>new errs. tokens ?end = tokens (newLexer src) @ new \<and>
       errors ?end = errors (newLexer src) @ errs \<and>
       recon True (concat (map tvalue new)) (length errs)
         (drop (pos (newLexer src)) (source (newLexer src)))"
    using that
    by (auto simp: roundTripButAmpersand_def tokenize_tokens tokenize_errors newLexer_def)
  {
    assume a: "(\<forall>t \<in> set (fst (tokenize src)). ttype t \<noteq> STRING) \<and>
      (\<forall>e \<in> set (snd (tokenize src)). emessage e \<noteq> ''Unterminated string'')"
    have "\<not> isQuote (source s ! pos s) \<and> scanLoop (scanToken s) = ?end"
      if "scanLoop s = ?end" "\<not> isAtEnd s" for s
      using that a quote_scanned [OF that (2)]
      by (auto simp: scanLoop.simps [of s] tokenize_tokens tokenize_errors)
    from scanLoop_recon [of "\<lambda>s. scanLoop s = ?end", OF this refl]
    show "roundTripButAmpersand src" by (rule fin)
  next
    assume a: "CHR 0x22 \<notin> set src \<and> CHR 0x27 \<notin> set src"
    have "\<not> isQuote (source s ! pos s) \<and> source (scanToken s) = src"
      if "source s = src" "\<not> isAtEnd s" for s
    proof -
      from that have "src ! pos s \<in> set src" by (simp add: isAtEnd_def)
      with a that scanToken_progress (1) [OF that (2)] show ?thesis
        by (auto simp: isQuote_def)
    qed
    from scanLoop_recon [of "\<lambda>s. source s = src" "newLexer src", OF this]
    show "roundTripButAmpersand src" by (intro fin) (simp add: newLexer_def)
  }
qed

theorem roundTrip_without_strings_witness:
  \<open>map ttype (fst (tokenize ''x // "q" & y'')) = [IDENTIFIER, COMMENT, EOF] \<and>
   snd (tokenize ''x // "q" & y'') = [] \<and>
   roundTripButAmpersand ''x // "q" & y'' \<and>
   CHR 0x22 \<notin> set ''a && b & c'' \<and> CHR 0x27 \<notin> set ''a && b & c'' \<and>
   roundTripButAmpersand ''a && b & c''\<close>
proof -
  define one where \<open>one = ''x // "q" & y''\<close>
  define two where "two = ''a && b & c''"
  have tk: "map ttype (fst (tokenize one)) = [IDENTIFIER, COMMENT, EOF]"
    and er: "snd (tokenize one) = []"
    unfolding one_def by code_simp+
  have "ttype ` set (fst (tokenize one)) = set (map ttype (fst (tokenize one)))"
    by simp
  then have "STRING \<notin> ttype ` set (fst (tokenize one))"
    unfolding tk by simp
  then have a: "\<forall>t \<in> set (fst (tokenize one)). ttype t \<noteq> STRING"
    by (metis imageI)
  have b: "\<forall>e \<in> set (snd (tokenize one)). emessage e \<noteq> ''Unterminated string''"
    unfolding er by simp
  have r1: "roundTripButAmpersand one"
    by (rule roundTrip_without_strings [of one, THEN conjunct1, THEN mp, OF conjI [OF a b]])
  have q: "CHR 0x22 \<notin> set two" "CHR 0x27 \<notin> set two" unfolding two_def by simp_all
  have r2: "roundTripButAmpersand two"
    by (rule roundTrip_without_strings [of two, THEN conjunct2, THEN mp, OF conjI [OF q]])
  from tk er r1 q r2 show ?thesis unfolding one_def two_def by (intro conjI)
qed

section \<open>The NoteG parser (noteg-lang/src/parser.ts)\<close>

text \<open>
  The syntax tree. A numeric literal's \<open>value\<close> is \<open>Number(raw)\<close>, a double; the tree
  carries the numeral text that \<open>Number\<close> is applied to. The parts of a template
  statement are strings or expressions.
\<close>

datatype LiteralValue =
    StringValue string
  | NumberValue string
  | BooleanValue bool
  | NullValue

datatype ExpressionNode =
    Identifier string
  | Literal LiteralValue string
  | BinaryExpression string ExpressionNode ExpressionNode
  | UnaryExpression string ExpressionNode
  | CallExpression ExpressionNode "ExpressionNode list"
  | MemberExpression ExpressionNode ExpressionNode bool
  | ArrayExpression "ExpressionNode list"
  | ObjectExpression "(string \<times> ExpressionNode) list"
  | PipeExpression ExpressionNode ExpressionNode
  | TemplateExpression ExpressionNode

datatype TemplatePart = TextPart string | ExpressionPart ExpressionNode

datatype StatementNode =
    VariableDeclaration string string "ExpressionNode option"
  | FunctionDeclaration string "string list" "StatementNode list"
  | ExpressionStatement ExpressionNode
  | ReturnStatement "ExpressionNode option"
  | IfStatement ExpressionNode "StatementNode list" "StatementNode list option"
  | ForStatement string ExpressionNode "StatementNode list"
  | ImportStatement "string list" string
  | ExportStatement StatementNode
  | TemplateStatement "TemplatePart list"

datatype ProgramNode = Program "StatementNode list"

text \<open>
  \<open>ParseError\<close>. Its token is \<open>this.peek()\<close>, which is \<open>tokens[pos]\<close> and so \<open>undefined\<close>
  (\<^const>\<open>None\<close>) when \<open>pos\<close> is out of range.
\<close>

record ParseError =
  pmessage :: string
  ptoken :: "Token option"

text \<open>The fields of class \<open>Parser\<close>.\<close>

record Parser =
  ptokens :: "Token list"
  ppos :: nat
  perrors :: "ParseError list"

text \<open>
  What a method of the parser does: it returns a value, or it throws, in both cases
  leaving the fields of the parser as they are at that moment. Two things are thrown:
  the \<open>ParseError\<close> of \<open>throw this.error(...)\<close>, and the \<open>TypeError\<close> of reading \<open>.type\<close>
  or \<open>.value\<close> of \<open>undefined\<close>. \<open>OutOfFuel\<close> is the answer of a method of the model
  whose bound on loop iterations or on the depth of recursion (below) is used up. The
  size of the JavaScript call stack is not modelled.
\<close>

datatype Exn = ParseFailure | TypeError

datatype 'a Result = Ok 'a Parser | Thrown Exn Parser | OutOfFuel

definition andThen :: "'a Result \<Rightarrow> ('a \<Rightarrow> Parser \<Rightarrow> 'b Result) \<Rightarrow> 'b Result" where
  "andThen r f = (case r of Ok v st \<Rightarrow> f v st | Thrown e st \<Rightarrow> Thrown e st | OutOfFuel \<Rightarrow> OutOfFuel)"

definition newParser :: "Token list \<Rightarrow> Parser" where
  "newParser toks =
     \<lparr>ptokens = filter (\<lambda>t. ttype t \<noteq> COMMENT \<and> ttype t \<noteq> NEWLINE) toks,
      ppos = 0, perrors = []\<rparr>"

definition peekP :: "Parser \<Rightarrow> Token option" where
  "peekP st = (if ppos st < length (ptokens st) then Some (ptokens st ! ppos st) else None)"

definition previous :: "Parser \<Rightarrow> Token option" where
  "previous st =
     (if 0 < ppos st \<and> ppos st - 1 < length (ptokens st) then Some (ptokens st ! (ppos st - 1))
      else None)"

definition typeOf :: "Token option \<Rightarrow> Parser \<Rightarrow> TokenType Result" where
  "typeOf t st = (case t of None \<Rightarrow> Thrown TypeError st | Some tok \<Rightarrow> Ok (ttype tok) st)"

definition valueOf :: "Token option \<Rightarrow> Parser \<Rightarrow> string Result" where
  "valueOf t st = (case t of None \<Rightarrow> Thrown TypeError st | Some tok \<Rightarrow> Ok (tvalue tok) st)"

definition isAtEndP :: "Parser \<Rightarrow> bool Result" where
  "isAtEndP st = andThen (typeOf (peekP st) st) (\<lambda>ty st. Ok (ty = EOF) st)"

definition checkP :: "TokenType \<Rightarrow> Parser \<Rightarrow> bool Result" where
  "checkP ty st =
     andThen (isAtEndP st) (\<lambda>atEnd st.
       if atEnd then Ok False st
       else andThen (typeOf (peekP st) st) (\<lambda>t st. Ok (t = ty) st))"

definition advanceP :: "Parser \<Rightarrow> Token option Result" where
  "advanceP st =
     andThen (isAtEndP st) (\<lambda>atEnd st.
       (let st' = (if \<not> atEnd then st\<lparr>ppos := ppos st + 1\<rparr> else st)
        in Ok (previous st') st'))"

text \<open>\<open>match\<close> is only ever called with one token type.\<close>

definition matchP :: "TokenType \<Rightarrow> Parser \<Rightarrow> bool Result" where
  "matchP ty st =
     andThen (checkP ty st) (\<lambda>c st.
       if c then andThen (advanceP st) (\<lambda>_ st. Ok True st) else Ok False st)"

text \<open>The operator \<open>||\<close> between two calls of \<open>match\<close>.\<close>

definition orElse :: "bool Result \<Rightarrow> (Parser \<Rightarrow> bool Result) \<Rightarrow> bool Result" where
  "orElse r f = andThen r (\<lambda>b st. if b then Ok True st else f st)"

definition error :: "Token option \<Rightarrow> string \<Rightarrow> Parser \<Rightarrow> Parser" where
  "error tok msg st = st\<lparr>perrors := perrors st @ [\<lparr>pmessage = msg, ptoken = tok\<rparr>]\<rparr>"

definition expect :: "TokenType \<Rightarrow> string \<Rightarrow> Parser \<Rightarrow> Token option Result" where
  "expect ty msg st =
     andThen (checkP ty st) (\<lambda>c st.
       if c then advanceP st else Thrown ParseFailure (error (peekP st) msg st))"

text \<open>\<open>this.expect(type, message).value\<close> and \<open>this.previous().value\<close>.\<close>

definition expectValue :: "TokenType \<Rightarrow> string \<Rightarrow> Parser \<Rightarrow> string Result" where
  "expectValue ty msg st = andThen (expect ty msg st) valueOf"

definition previousValue :: "Parser \<Rightarrow> string Result" where
  "previousValue st = valueOf (previous st) st"

definition syncKeywords :: "string list" where
  "syncKeywords = [''let'', ''const'', ''fn'', ''if'', ''for'', ''return'', ''import'', ''export'']"

fun syncLoop :: "nat \<Rightarrow> Parser \<Rightarrow> unit Result" where
  "syncLoop 0 st = OutOfFuel"
| "syncLoop (Suc n) st =
     andThen (isAtEndP st) (\<lambda>atEnd st.
       if atEnd then Ok () st
       else andThen (typeOf (previous st) st) (\<lambda>pt st.
         if pt = SEMICOLON then Ok () st
         else andThen (checkP KEYWORD st) (\<lambda>isKw st.
           andThen (if isKw then andThen (valueOf (peekP st) st) (\<lambda>kw st. Ok (kw \<in> set syncKeywords) st)
                    else Ok False st) (\<lambda>stop st.
             if stop then Ok () st
             else andThen (advanceP st) (\<lambda>_ st. syncLoop n st)))))"

definition synchronize :: "nat \<Rightarrow> Parser \<Rightarrow> unit Result" where
  "synchronize n st = andThen (advanceP st) (\<lambda>_ st. syncLoop n st)"

text \<open>
  The recursive descent. Every method of the model has two more arguments than its
  source: a number \<open>n\<close> that bounds the iterations of its loops, and the parser to run
  where the source calls \<open>this.parseExpression()\<close> (named \<open>pe\<close>) or
  \<open>this.parseStatement()\<close> (named \<open>ps\<close>) from inside an expression or a statement.
  \<open>parseExpression\<close> and \<open>parseStatement\<close> themselves close the recursion, by
  recursion on a bound on its depth.
\<close>

type_synonym 'a parser = "Parser \<Rightarrow> 'a Result"

text \<open>
  The \<open>do { ... } while (this.match(COMMA))\<close> loops over identifiers (the parameters of
  a function, the names of an import) differ in the message only.
\<close>

fun identifierList :: "nat \<Rightarrow> string \<Rightarrow> string list \<Rightarrow> string list parser" where
  "identifierList 0 msg acc st = OutOfFuel"
| "identifierList (Suc n) msg acc st =
     andThen (expectValue IDENTIFIER msg st) (\<lambda>name st.
     andThen (matchP COMMA st) (\<lambda>more st.
       if more then identifierList n msg (acc @ [name]) st else Ok (acc @ [name]) st))"

text \<open>The same loop over expressions: the arguments of a call, the elements of an array.\<close>

fun expressionList ::
  "ExpressionNode parser \<Rightarrow> nat \<Rightarrow> ExpressionNode list \<Rightarrow> ExpressionNode list parser" where
  "expressionList pe 0 acc st = OutOfFuel"
| "expressionList pe (Suc n) acc st =
     andThen (pe st) (\<lambda>e st.
     andThen (matchP COMMA st) (\<lambda>more st.
       if more then expressionList pe n (acc @ [e]) st else Ok (acc @ [e]) st))"

fun propertyList ::
  "ExpressionNode parser \<Rightarrow> nat \<Rightarrow> (string \<times> ExpressionNode) list \<Rightarrow>
   (string \<times> ExpressionNode) list parser" where
  "propertyList pe 0 acc st = OutOfFuel"
| "propertyList pe (Suc n) acc st =
     andThen (expectValue IDENTIFIER ''Expected property key'' st) (\<lambda>key st.
     andThen (expect COLON ''Expected ':' after property key'' st) (\<lambda>_ st.
     andThen (pe st) (\<lambda>v st.
     andThen (matchP COMMA st) (\<lambda>more st.
       if more then propertyList pe n (acc @ [(key, v)]) st else Ok (acc @ [(key, v)]) st))))"

definition parsePrimary :: "ExpressionNode parser \<Rightarrow> nat \<Rightarrow> ExpressionNode parser" where
  "parsePrimary pe n st =
     andThen (matchP NUMBER st) (\<lambda>m st.
       if m then andThen (previousValue st) (\<lambda>v st. Ok (Literal (NumberValue v) v) st)
       else andThen (matchP STRING st) (\<lambda>m st.
       if m then
         andThen (previousValue st) (\<lambda>v st.
           Ok (Literal (StringValue v) ([CHR 0x22] @ v @ [CHR 0x22])) st)
       else andThen (matchP BOOLEAN st) (\<lambda>m st.
       if m then
         andThen (previousValue st) (\<lambda>v st. Ok (Literal (BooleanValue (v = ''true'')) v) st)
       else andThen (matchP NULL st) (\<lambda>m st.
       if m then Ok (Literal NullValue ''null'') st
       else andThen (matchP IDENTIFIER st) (\<lambda>m st.
       if m then andThen (previousValue st) (\<lambda>v st. Ok (Identifier v) st)
       else andThen (matchP LBRACKET st) (\<lambda>m st.
       if m then
         andThen (checkP RBRACKET st) (\<lambda>empty st.
         andThen (if \<not> empty then expressionList pe n [] st else Ok [] st) (\<lambda>elements st.
         andThen (expect RBRACKET (''Expected ']'' @ [CHR 0x27]) st) (\<lambda>_ st.
           Ok (ArrayExpression elements) st)))
       else andThen (matchP LBRACE st) (\<lambda>m st.
       if m then
         andThen (checkP RBRACE st) (\<lambda>empty st.
         andThen (if \<not> empty then propertyList pe n [] st else Ok [] st) (\<lambda>properties st.
         andThen (expect RBRACE (''Expected '}'' @ [CHR 0x27]) st) (\<lambda>_ st.
           Ok (ObjectExpression properties) st)))
       else andThen (matchP LPAREN st) (\<lambda>m st.
       if m then
         andThen (pe st) (\<lambda>expr st.
         andThen (expect RPAREN (''Expected ')'' @ [CHR 0x27]) st) (\<lambda>_ st.
           Ok expr st))
       else Thrown ParseFailure (error (peekP st) ''Expected expression'' st)))))))))"

text \<open>The \<open>while (true)\<close> loop of \<open>parseCall\<close>.\<close>

fun parseCallLoop ::
  "ExpressionNode parser \<Rightarrow> nat \<Rightarrow> ExpressionNode \<Rightarrow> ExpressionNode parser" where
  "parseCallLoop pe 0 expr st = OutOfFuel"
| "parseCallLoop pe (Suc n) expr st =
     andThen (matchP LPAREN st) (\<lambda>call st.
       if call then
         andThen (checkP RPAREN st) (\<lambda>empty st.
         andThen (if \<not> empty then expressionList pe n [] st else Ok [] st) (\<lambda>args st.
         andThen (expect RPAREN ''Expected ')' after arguments'' st) (\<lambda>_ st.
           parseCallLoop pe n (CallExpression expr args) st)))
       else andThen (matchP DOT st) (\<lambda>dot st.
         if dot then
           andThen (expectValue IDENTIFIER ''Expected property name'' st) (\<lambda>name st.
             parseCallLoop pe n (MemberExpression expr (Identifier name) False) st)
         else andThen (matchP LBRACKET st) (\<lambda>bracket st.
           if bracket then
             andThen (pe st) (\<lambda>property st.
             andThen (expect RBRACKET (''Expected ']'' @ [CHR 0x27]) st) (\<lambda>_ st.
               parseCallLoop pe n (MemberExpression expr property True) st))
           else Ok expr st)))"

definition parseCall :: "ExpressionNode parser \<Rightarrow> nat \<Rightarrow> ExpressionNode parser" where
  "parseCall pe n st = andThen (parsePrimary pe n st) (\<lambda>expr st. parseCallLoop pe n expr st)"

fun parseUnary :: "ExpressionNode parser \<Rightarrow> nat \<Rightarrow> ExpressionNode parser" where
  "parseUnary pe 0 st = OutOfFuel"
| "parseUnary pe (Suc n) st =
     andThen (orElse (matchP NOT st) (matchP MINUS)) (\<lambda>prefix st.
       if prefix then
         andThen (previousValue st) (\<lambda>operator st.
         andThen (parseUnary pe n st) (\<lambda>argument st.
           Ok (UnaryExpression operator argument) st))
       else parseCall pe (Suc n) st)"

fun parseFactorLoop ::
  "ExpressionNode parser \<Rightarrow> nat \<Rightarrow> ExpressionNode \<Rightarrow> ExpressionNode parser" where
  "parseFactorLoop pe 0 left st = OutOfFuel"
| "parseFactorLoop pe (Suc n) left st =
     andThen (orElse (orElse (matchP MULTIPLY st) (matchP DIVIDE)) (matchP MODULO)) (\<lambda>more st.
       if more then
         andThen (previousValue st) (\<lambda>operator st.
         andThen (parseUnary pe n st) (\<lambda>right st.
           parseFactorLoop pe n (BinaryExpression operator left right) st))
       else Ok left st)"

definition parseFactor :: "ExpressionNode parser \<Rightarrow> nat \<Rightarrow> ExpressionNode parser" where
  "parseFactor pe n st = andThen (parseUnary pe n st) (\<lambda>left st. parseFactorLoop pe n left st)"

fun parseTermLoop ::
  "ExpressionNode parser \<Rightarrow> nat \<Rightarrow> ExpressionNode \<Rightarrow> ExpressionNode parser" where
  "parseTermLoop pe 0 left st = OutOfFuel"
| "parseTermLoop pe (Suc n) left st =
     andThen (orElse (matchP PLUS st) (matchP MINUS)) (\<lambda>more st.
       if more then
         andThen (previousValue st) (\<lambda>operator st.
         andThen (parseFactor pe n st) (\<lambda>right st.
           parseTermLoop pe n (BinaryExpression operator left right) st))
       else Ok left st)"

definition parseTerm :: "ExpressionNode parser \<Rightarrow> nat \<Rightarrow> ExpressionNode parser" where
  "parseTerm pe n st = andThen (parseFactor pe n st) (\<lambda>left st. parseTermLoop pe n left st)"

definition parseComparison :: "ExpressionNode parser \<Rightarrow> nat \<Rightarrow> ExpressionNode parser" where
  "parseComparison pe n st = parseTerm pe n st"

fun parseEqualityLoop ::
  "ExpressionNode parser \<Rightarrow> nat \<Rightarrow> ExpressionNode \<Rightarrow> ExpressionNode parser" where
  "parseEqualityLoop pe 0 left st = OutOfFuel"
| "parseEqualityLoop pe (Suc n) left st =
     andThen (orElse (matchP EQUALS st) (matchP NOT_EQUALS)) (\<lambda>more st.
       if more then
         andThen (previousValue st) (\<lambda>operator st.
         andThen (parseComparison pe n st) (\<lambda>right st.
           parseEqualityLoop pe n (BinaryExpression operator left right) st))
       else Ok left st)"

definition parseEquality :: "ExpressionNode parser \<Rightarrow> nat \<Rightarrow> ExpressionNode parser" where
  "parseEquality pe n st =
     andThen (parseComparison pe n st) (\<lambda>left st. parseEqualityLoop pe n left st)"

fun parseAndLoop ::
  "ExpressionNode parser \<Rightarrow> nat \<Rightarrow> ExpressionNode \<Rightarrow> ExpressionNode parser" where
  "parseAndLoop pe 0 left st = OutOfFuel"
| "parseAndLoop pe (Suc n) left st =
     andThen (matchP AND st) (\<lambda>more st.
       if more then
         andThen (parseEquality pe n st) (\<lambda>right st.
           parseAndLoop pe n (BinaryExpression ''&&'' left right) st)
       else Ok left st)"

definition parseAnd :: "ExpressionNode parser \<Rightarrow> nat \<Rightarrow> ExpressionNode parser" where
  "parseAnd pe n st = andThen (parseEquality pe n st) (\<lambda>left st. parseAndLoop pe n left st)"

fun parseOrLoop ::
  "ExpressionNode parser \<Rightarrow> nat \<Rightarrow> ExpressionNode \<Rightarrow> ExpressionNode parser" where
  "parseOrLoop pe 0 left st = OutOfFuel"
| "parseOrLoop pe (Suc n) left st =
     andThen (matchP OR st) (\<lambda>more st.
       if more then
         andThen (parseAnd pe n st) (\<lambda>right st.
           parseOrLoop pe n (BinaryExpression ''||'' left right) st)
       else Ok left st)"

definition parseOr :: "ExpressionNode parser \<Rightarrow> nat \<Rightarrow> ExpressionNode parser" where
  "parseOr pe n st = andThen (parseAnd pe n st) (\<lambda>left st. parseOrLoop pe n left st)"

fun parsePipeLoop ::
  "ExpressionNode parser \<Rightarrow> nat \<Rightarrow> ExpressionNode \<Rightarrow> ExpressionNode parser" where
  "parsePipeLoop pe 0 left st = OutOfFuel"
| "parsePipeLoop pe (Suc n) left st =
     andThen (matchP PIPE st) (\<lambda>more st.
       if more then
         andThen (parseOr pe n st) (\<lambda>right st.
           parsePipeLoop pe n (PipeExpression left right) st)
       else Ok left st)"

definition parsePipe :: "ExpressionNode parser \<Rightarrow> nat \<Rightarrow> ExpressionNode parser" where
  "parsePipe pe n st = andThen (parseOr pe n st) (\<lambda>left st. parsePipeLoop pe n left st)"

text \<open>
  \<open>parseExpression\<close> is \<open>parsePipe\<close>; an expression nested in brackets, braces or
  parentheses is parsed one level deeper.
\<close>

primrec parseExpression :: "nat \<Rightarrow> ExpressionNode parser" where
  "parseExpression 0 = (\<lambda>st. OutOfFuel)"
| "parseExpression (Suc n) = parsePipe (parseExpression n) (Suc n)"

subsection \<open>Statements\<close>

definition parseVariableDeclaration :: "nat \<Rightarrow> StatementNode parser" where
  "parseVariableDeclaration n st =
     andThen (andThen (advanceP st) valueOf) (\<lambda>kind st.
     andThen (expectValue IDENTIFIER ''Expected variable name'' st) (\<lambda>name st.
     andThen (matchP ASSIGN st) (\<lambda>hasInit st.
     andThen (if hasInit then andThen (parseExpression n st) (\<lambda>e st. Ok (Some e) st)
              else Ok None st) (\<lambda>init st.
     andThen (matchP SEMICOLON st) (\<lambda>_ st.
       Ok (VariableDeclaration kind name init) st)))))"

text \<open>
  The loop \<open>while (!this.check(RBRACE) && !this.isAtEnd())\<close> that collects the
  statements of a body; the source has it four times.
\<close>

fun parseBlock ::
  "StatementNode parser \<Rightarrow> nat \<Rightarrow> StatementNode list \<Rightarrow> StatementNode list parser" where
  "parseBlock ps 0 body st = OutOfFuel"
| "parseBlock ps (Suc n) body st =
     andThen (checkP RBRACE st) (\<lambda>closing st.
     andThen (if closing then Ok False st
              else andThen (isAtEndP st) (\<lambda>atEnd st. Ok (\<not> atEnd) st)) (\<lambda>continue st.
       if continue then
         andThen (ps st) (\<lambda>stmt st. parseBlock ps n (body @ [stmt]) st)
       else Ok body st))"

definition parseFunctionDeclaration :: "StatementNode parser \<Rightarrow> nat \<Rightarrow> StatementNode parser" where
  "parseFunctionDeclaration ps n st =
     andThen (advanceP st) (\<lambda>_ st.
     andThen (expectValue IDENTIFIER ''Expected function name'' st) (\<lambda>name st.
     andThen (expect LPAREN ''Expected '(' after function name'' st) (\<lambda>_ st.
     andThen (checkP RPAREN st) (\<lambda>empty st.
     andThen (if \<not> empty then identifierList n ''Expected parameter name'' [] st
              else Ok [] st) (\<lambda>params st.
     andThen (expect RPAREN ''Expected ')' after parameters'' st) (\<lambda>_ st.
     andThen (expect LBRACE ''Expected '{' before function body'' st) (\<lambda>_ st.
     andThen (parseBlock ps n [] st) (\<lambda>body st.
     andThen (expect RBRACE ''Expected '}' after function body'' st) (\<lambda>_ st.
       Ok (FunctionDeclaration name params body) st)))))))))"

definition parseReturnStatement :: "nat \<Rightarrow> StatementNode parser" where
  "parseReturnStatement n st =
     andThen (advanceP st) (\<lambda>_ st.
     andThen (checkP SEMICOLON st) (\<lambda>semi st.
     andThen (if semi then Ok False st
              else andThen (checkP RBRACE st) (\<lambda>brace st. Ok (\<not> brace) st)) (\<lambda>hasArg st.
     andThen (if hasArg then andThen (parseExpression n st) (\<lambda>e st. Ok (Some e) st)
              else Ok None st) (\<lambda>argument st.
     andThen (matchP SEMICOLON st) (\<lambda>_ st.
       Ok (ReturnStatement argument) st)))))"

definition parseIfStatement :: "StatementNode parser \<Rightarrow> nat \<Rightarrow> StatementNode parser" where
  "parseIfStatement ps n st =
     andThen (advanceP st) (\<lambda>_ st.
     andThen (expect LPAREN (''Expected '(' after 'if'' @ [CHR 0x27]) st) (\<lambda>_ st.
     andThen (parseExpression n st) (\<lambda>test st.
     andThen (expect RPAREN ''Expected ')' after condition'' st) (\<lambda>_ st.
     andThen (expect LBRACE ''Expected '{' before if body'' st) (\<lambda>_ st.
     andThen (parseBlock ps n [] st) (\<lambda>consequent st.
     andThen (expect RBRACE ''Expected '}' after if body'' st) (\<lambda>_ st.
     andThen (checkP KEYWORD st) (\<lambda>kw st.
     andThen (if kw then andThen (valueOf (peekP st) st) (\<lambda>v st. Ok (v = ''else'') st)
              else Ok False st) (\<lambda>hasElse st.
     andThen (if hasElse then
                andThen (advanceP st) (\<lambda>_ st.
                andThen (expect LBRACE ''Expected '{' before else body'' st) (\<lambda>_ st.
                andThen (parseBlock ps n [] st) (\<lambda>alt st.
                andThen (expect RBRACE ''Expected '}' after else body'' st) (\<lambda>_ st.
                  Ok (Some alt) st))))
              else Ok None st) (\<lambda>alternate st.
       Ok (IfStatement test consequent alternate) st))))))))))"

definition parseForStatement :: "StatementNode parser \<Rightarrow> nat \<Rightarrow> StatementNode parser" where
  "parseForStatement ps n st =
     andThen (advanceP st) (\<lambda>_ st.
     andThen (expectValue IDENTIFIER ''Expected loop variable'' st) (\<lambda>variable st.
     andThen (expect KEYWORD (''Expected 'in'' @ [CHR 0x27]) st) (\<lambda>_ st.
     andThen (parseExpression n st) (\<lambda>iterable st.
     andThen (expect LBRACE ''Expected '{' before for body'' st) (\<lambda>_ st.
     andThen (parseBlock ps n [] st) (\<lambda>body st.
     andThen (expect RBRACE ''Expected '}' after for body'' st) (\<lambda>_ st.
       Ok (ForStatement variable iterable body) st)))))))"

definition parseImportStatement :: "nat \<Rightarrow> StatementNode parser" where
  "parseImportStatement n st =
     andThen (advanceP st) (\<lambda>_ st.
     andThen (expect LBRACE ''Expected '{' after import'' st) (\<lambda>_ st.
     andThen (checkP RBRACE st) (\<lambda>empty st.
     andThen (if \<not> empty then identifierList n ''Expected import name'' [] st
              else Ok [] st) (\<lambda>specifiers st.
     andThen (expect RBRACE ''Expected '}' after imports'' st) (\<lambda>_ st.
     andThen (expect KEYWORD (''Expected 'from'' @ [CHR 0x27]) st) (\<lambda>_ st.
     andThen (expectValue STRING ''Expected module path'' st) (\<lambda>source st.
     andThen (matchP SEMICOLON st) (\<lambda>_ st.
       Ok (ImportStatement specifiers source) st))))))))"

definition parseExportStatement :: "StatementNode parser \<Rightarrow> StatementNode parser" where
  "parseExportStatement ps st =
     andThen (advanceP st) (\<lambda>_ st.
     andThen (ps st) (\<lambda>declaration st.
       Ok (ExportStatement declaration) st))"

text \<open>The \<open>while (!this.isAtEnd())\<close> loop of \<open>parseTemplateStatement\<close>.\<close>

fun parseTemplateLoop :: "nat \<Rightarrow> TemplatePart list \<Rightarrow> TemplatePart list parser" where
  "parseTemplateLoop 0 parts st = OutOfFuel"
| "parseTemplateLoop (Suc n) parts st =
     andThen (isAtEndP st) (\<lambda>atEnd st.
       if atEnd then Ok parts st
       else andThen (matchP TEMPLATE_START st) (\<lambda>start st.
         if start then
           andThen (parseExpression n st) (\<lambda>e st.
           andThen (expect TEMPLATE_END (''Expected '}}'' @ [CHR 0x27]) st) (\<lambda>_ st.
             parseTemplateLoop n (parts @ [ExpressionPart e]) st))
         else andThen (checkP TEMPLATE_TEXT st) (\<lambda>text st.
           if text then
             andThen (andThen (advanceP st) valueOf) (\<lambda>v st.
               parseTemplateLoop n (parts @ [TextPart v]) st)
           else Ok parts st)))"

definition parseTemplateStatement :: "nat \<Rightarrow> StatementNode parser" where
  "parseTemplateStatement n st =
     andThen (advanceP st) (\<lambda>_ st.
     andThen (parseTemplateLoop n [] st) (\<lambda>parts st.
       Ok (TemplateStatement parts) st))"

definition parseExpressionStatement :: "nat \<Rightarrow> StatementNode parser" where
  "parseExpressionStatement n st =
     andThen (parseExpression n st) (\<lambda>expression st.
     andThen (matchP SEMICOLON st) (\<lambda>_ st.
       Ok (ExpressionStatement expression) st))"

text \<open>The body of \<open>parseStatement\<close>: the \<open>switch\<close> on the value of a keyword token.\<close>

definition statement :: "StatementNode parser \<Rightarrow> nat \<Rightarrow> StatementNode parser" where
  "statement ps n st =
     (case peekP st of
        None \<Rightarrow> Thrown TypeError st
      | Some token \<Rightarrow>
          if ttype token = KEYWORD then
            (if tvalue token = ''let'' \<or> tvalue token = ''const'' then parseVariableDeclaration n st
             else if tvalue token = ''fn'' then parseFunctionDeclaration ps n st
             else if tvalue token = ''return'' then parseReturnStatement n st
             else if tvalue token = ''if'' then parseIfStatement ps n st
             else if tvalue token = ''for'' then parseForStatement ps n st
             else if tvalue token = ''import'' then parseImportStatement n st
             else if tvalue token = ''export'' then parseExportStatement ps st
             else if tvalue token = ''template'' then parseTemplateStatement n st
             else parseExpressionStatement n st)
          else parseExpressionStatement n st)"

primrec parseStatement :: "nat \<Rightarrow> StatementNode parser" where
  "parseStatement 0 = (\<lambda>st. OutOfFuel)"
| "parseStatement (Suc n) = statement (parseStatement n) (Suc n)"

text \<open>
  \<open>parse\<close>. The \<open>catch (e)\<close> of its loop catches whatever \<open>parseStatement\<close> throws;
  \<open>isAtEnd\<close> and \<open>synchronize\<close> run outside the \<open>try\<close>. The bound \<open>fuel\<close> is that of
  the statements, \<open>n\<close> that of the loop.
\<close>

fun parseLoop :: "nat \<Rightarrow> nat \<Rightarrow> StatementNode list \<Rightarrow> StatementNode list parser" where
  "parseLoop fuel 0 body st = OutOfFuel"
| "parseLoop fuel (Suc n) body st =
     andThen (isAtEndP st) (\<lambda>atEnd st.
       if atEnd then Ok body st
       else
         (case parseStatement fuel st of
            Ok stmt st' \<Rightarrow> parseLoop fuel n (body @ [stmt]) st'
          | Thrown e st' \<Rightarrow> andThen (synchronize fuel st') (\<lambda>_ st''. parseLoop fuel n body st'')
          | OutOfFuel \<Rightarrow> OutOfFuel))"

datatype ParseOutcome =
    Returned ProgramNode "ParseError list"
  | Raised Exn
  | Unfinished

text \<open>
  \<open>new Parser(tokens).parse()\<close>. No loop runs more often, and no recursion goes deeper,
  than there are tokens; the bounds are set to one more.
\<close>

definition parse :: "Token list \<Rightarrow> ParseOutcome" where
  "parse toks =
     (let st = newParser toks; fuel = Suc (length (ptokens st))
      in case parseLoop fuel fuel [] st of
           Ok body st' \<Rightarrow> Returned (Program body) (perrors st')
         | Thrown e st' \<Rightarrow> Raised e
         | OutOfFuel \<Rightarrow> Unfinished)"

section \<open>The parser returns\<close>

text \<open>
  The parser never moves past the first \<open>EOF\<close> token: \<open>advance\<close> stays where it is once
  \<open>isAtEnd\<close> holds. \<open>inRange st\<close> says that the token list has an \<open>EOF\<close> token and that
  \<open>pos\<close> is not past the first one; then \<open>peek\<close> is never \<open>undefined\<close>.
\<close>

definition eofIndex :: "Token list \<Rightarrow> nat" where
  "eofIndex toks = length (takeWhile (\<lambda>t. ttype t \<noteq> EOF) toks)"

definition inRange :: "Parser \<Rightarrow> bool" where
  "inRange st \<longleftrightarrow>
     ppos st \<le> eofIndex (ptokens st) \<and> eofIndex (ptokens st) < length (ptokens st)"

text \<open>
  \<open>good toks lo R r\<close>: the result \<open>r\<close> is a value with a state that satisfies \<open>R\<close>, or a
  thrown \<open>ParseError\<close> with a state at or after position \<open>lo\<close> that has recorded an
  error; the state is in range in both cases, over the same tokens.
\<close>

definition good :: "Token list \<Rightarrow> nat \<Rightarrow> ('a \<Rightarrow> Parser \<Rightarrow> bool) \<Rightarrow> 'a Result \<Rightarrow> bool" where
  "good toks lo R r =
     (case r of
        Ok v st' \<Rightarrow> ptokens st' = toks \<and> inRange st' \<and> R v st'
      | Thrown e st' \<Rightarrow>
          e = ParseFailure \<and> ptokens st' = toks \<and> inRange st' \<and> lo \<le> ppos st' \<and>
          perrors st' \<noteq> []
      | OutOfFuel \<Rightarrow> False)"

lemma good_simps [simp]:
  "good toks lo R (Ok v st) \<longleftrightarrow> ptokens st = toks \<and> inRange st \<and> R v st"
  "good toks lo R (Thrown e st) \<longleftrightarrow>
     e = ParseFailure \<and> ptokens st = toks \<and> inRange st \<and> lo \<le> ppos st \<and> perrors st \<noteq> []"
  "good toks lo R OutOfFuel \<longleftrightarrow> False"
  by (simp_all add: good_def)

lemma andThen_simps [simp]:
  "andThen (Ok v st) f = f v st"
  "andThen (Thrown e st) f = Thrown e st"
  "andThen OutOfFuel f = OutOfFuel"
  by (simp_all add: andThen_def)

lemma andThen_assoc:
  "andThen (andThen m f) g = andThen m (\<lambda>v st. andThen (f v st) g)"
  by (cases m) simp_all

lemma andThen_if: "andThen (if c then a else b) f = (if c then andThen a f else andThen b f)"
  by simp

lemma good_andThen:
  assumes "good toks lo R1 m"
    and "\<And>v st'. ptokens st' = toks \<Longrightarrow> inRange st' \<Longrightarrow> R1 v st' \<Longrightarrow> good toks lo R (k v st')"
  shows "good toks lo R (andThen m k)"
  using assms by (cases m) simp_all

lemma eofIndex_nth:
  assumes "eofIndex toks < length toks"
  shows "ttype (toks ! eofIndex toks) = EOF"
    and "i < eofIndex toks \<Longrightarrow> ttype (toks ! i) \<noteq> EOF"
proof -
  show "ttype (toks ! eofIndex toks) = EOF"
    using assms nth_length_takeWhile [of "\<lambda>t. ttype t \<noteq> EOF" toks]
    by (simp add: eofIndex_def)
  show "i < eofIndex toks \<Longrightarrow> ttype (toks ! i) \<noteq> EOF"
    using nth_mem [of i "takeWhile (\<lambda>t. ttype t \<noteq> EOF) toks"]
      set_takeWhileD [of "toks ! i" "\<lambda>t. ttype t \<noteq> EOF" toks]
    by (simp add: eofIndex_def takeWhile_nth)
qed

lemma inRange_atEnd:
  "inRange st \<Longrightarrow> ttype (ptokens st ! ppos st) = EOF \<longleftrightarrow> \<not> ppos st < eofIndex (ptokens st)"
  using eofIndex_nth [of "ptokens st"] by (auto simp: inRange_def le_less)

lemma inRange_length [simp]: "inRange st \<Longrightarrow> eofIndex (ptokens st) < length (ptokens st)"
  by (simp add: inRange_def)

lemma inRange_ppos [simp]:
  "inRange (st\<lparr>ppos := q\<rparr>) \<longleftrightarrow>
     q \<le> eofIndex (ptokens st) \<and> eofIndex (ptokens st) < length (ptokens st)"
  by (simp add: inRange_def)

lemma inRange_error [simp]: "inRange (error t msg st) \<longleftrightarrow> inRange st"
  by (simp add: inRange_def error_def)

lemma error_fields [simp]:
  "ppos (error t msg st) = ppos st" "ptokens (error t msg st) = ptokens st"
  "perrors (error t msg st) \<noteq> []"
  by (simp_all add: error_def)

lemma valueOf_Some [simp]: "valueOf (Some t) st = Ok (tvalue t) st"
  by (simp add: valueOf_def)

lemma peekP_inRange: "inRange st \<Longrightarrow> peekP st = Some (ptokens st ! ppos st)"
  by (simp add: inRange_def peekP_def)

lemma isAtEndP_inRange:
  "inRange st \<Longrightarrow> isAtEndP st = Ok (\<not> ppos st < eofIndex (ptokens st)) st"
  by (simp add: isAtEndP_def peekP_inRange typeOf_def inRange_atEnd)

lemma checkP_inRange:
  "inRange st \<Longrightarrow>
   checkP ty st =
     Ok (ppos st < eofIndex (ptokens st) \<and> ttype (ptokens st ! ppos st) = ty) st"
  by (simp add: checkP_def isAtEndP_inRange peekP_inRange typeOf_def)

lemma advanceP_inRange:
  assumes "inRange st"
  shows "advanceP st =
     (if ppos st < eofIndex (ptokens st)
      then Ok (Some (ptokens st ! ppos st)) (st\<lparr>ppos := Suc (ppos st)\<rparr>)
      else Ok (previous st) st)"
proof -
  have "isAtEndP st = Ok (\<not> ppos st < eofIndex (ptokens st)) st"
    by (rule isAtEndP_inRange [OF assms])
  then show ?thesis using assms by (auto simp: advanceP_def previous_def inRange_def)
qed

lemma matchP_inRange:
  "inRange st \<Longrightarrow>
   matchP ty st =
     (if ppos st < eofIndex (ptokens st) \<and> ttype (ptokens st ! ppos st) = ty
      then Ok True (st\<lparr>ppos := Suc (ppos st)\<rparr>) else Ok False st)"
  by (simp add: matchP_def checkP_inRange advanceP_inRange)

lemma expect_inRange:
  "inRange st \<Longrightarrow>
   expect ty msg st =
     (if ppos st < eofIndex (ptokens st) \<and> ttype (ptokens st ! ppos st) = ty
      then Ok (Some (ptokens st ! ppos st)) (st\<lparr>ppos := Suc (ppos st)\<rparr>)
      else Thrown ParseFailure (error (Some (ptokens st ! ppos st)) msg st))"
  by (simp add: expect_def checkP_inRange advanceP_inRange peekP_inRange)

lemma expectValue_inRange:
  "inRange st \<Longrightarrow>
   expectValue ty msg st =
     (if ppos st < eofIndex (ptokens st) \<and> ttype (ptokens st ! ppos st) = ty
      then Ok (tvalue (ptokens st ! ppos st)) (st\<lparr>ppos := Suc (ppos st)\<rparr>)
      else Thrown ParseFailure (error (Some (ptokens st ! ppos st)) msg st))"
  by (simp add: expectValue_def expect_inRange valueOf_def)

lemma previousValue_inRange:
  "inRange st \<Longrightarrow> ppos st < eofIndex (ptokens st) \<Longrightarrow>
   previousValue (st\<lparr>ppos := Suc (ppos st)\<rparr>) =
     Ok (tvalue (ptokens st ! ppos st)) (st\<lparr>ppos := Suc (ppos st)\<rparr>)"
  by (simp add: previousValue_def previous_def valueOf_def inRange_def)

lemma orElse_simps [simp]:
  "orElse (Ok True st) f = Ok True st"
  "orElse (Ok False st) f = f st"
  by (simp_all add: orElse_def)

lemma orElse_if: "orElse (if c then a else b) f = (if c then orElse a f else orElse b f)"
  by simp

lemmas prims = isAtEndP_inRange checkP_inRange advanceP_inRange matchP_inRange expect_inRange
  expectValue_inRange previousValue_inRange peekP_inRange andThen_if orElse_if andThen_assoc

text \<open>\<open>match\<close> and \<open>previous\<close> in terms of the current token, in range or not.\<close>

lemma matchP_peek:
  "matchP ty st =
     (case peekP st of
        None \<Rightarrow> Thrown TypeError st
      | Some t \<Rightarrow>
          if ttype t = ty \<and> ty \<noteq> EOF then Ok True (st\<lparr>ppos := Suc (ppos st)\<rparr>)
          else Ok False st)"
  by (auto simp: matchP_def checkP_def isAtEndP_def typeOf_def advanceP_def Let_def
        split: option.splits)

lemma previousValue_peek:
  "peekP st = Some t \<Longrightarrow> previousValue (st\<lparr>ppos := Suc (ppos st)\<rparr>) =
     Ok (tvalue t) (st\<lparr>ppos := Suc (ppos st)\<rparr>)"
  by (auto simp: previousValue_def previous_def peekP_def valueOf_def split: if_splits)

text \<open>
  What is asked of the parser run for a nested expression: from every state in range
  with fewer than \<open>B\<close> tokens before the \<open>EOF\<close> token, it returns further on or throws.
\<close>

definition exprSpec :: "Token list \<Rightarrow> nat \<Rightarrow> ExpressionNode parser \<Rightarrow> bool" where
  "exprSpec toks B pe \<longleftrightarrow>
     (\<forall>st lo p. ptokens st = toks \<and> inRange st \<and> eofIndex toks - ppos st < B \<and>
         lo \<le> ppos st \<and> p \<le> ppos st \<longrightarrow>
        good toks lo (\<lambda>v st'. p < ppos st') (pe st))"

lemma exprSpec_good:
  assumes "exprSpec toks B pe" "ptokens st = toks" "inRange st" "eofIndex toks - ppos st < B"
    "lo \<le> ppos st" "p \<le> ppos st"
  shows "good toks lo (\<lambda>v st'. p < ppos st') (pe st)"
  using assms unfolding exprSpec_def by blast

lemma exprSpec_call:
  assumes "exprSpec toks B pe" "ptokens st = toks" "inRange st" "eofIndex toks - ppos st < B"
    "lo \<le> ppos st"
    and "\<And>v st'. ptokens st' = toks \<Longrightarrow> inRange st' \<Longrightarrow> ppos st < ppos st' \<Longrightarrow>
      good toks lo R (k v st')"
  shows "good toks lo R (andThen (pe st) k)"
  by (rule good_andThen [OF exprSpec_good [where p = "ppos st"]]) (use assms in auto)

lemma expressionList_good:
  assumes pe: "exprSpec toks B pe"
  shows "ptokens st = toks \<Longrightarrow> inRange st \<Longrightarrow> eofIndex toks - ppos st < B \<Longrightarrow>
     eofIndex toks - ppos st < n \<Longrightarrow> lo \<le> ppos st \<Longrightarrow> p \<le> ppos st \<Longrightarrow>
     good toks lo (\<lambda>v st'. p < ppos st') (expressionList pe n acc st)"
proof (induction n arbitrary: st acc)
  case 0
  then show ?case by simp
next
  case (Suc n)
  show ?case
    apply (insert Suc.prems inRange_length [OF Suc.prems (2)])
    by ((simp add: prims | rule exprSpec_call [OF pe] Suc.IH | intro conjI impI |
        (simp add: inRange_def; linarith))+)
qed

lemma propertyList_good:
  assumes pe: "exprSpec toks B pe"
  shows "ptokens st = toks \<Longrightarrow> inRange st \<Longrightarrow> eofIndex toks - ppos st \<le> B \<Longrightarrow>
     eofIndex toks - ppos st < n \<Longrightarrow> lo \<le> ppos st \<Longrightarrow> p \<le> ppos st \<Longrightarrow>
     good toks lo (\<lambda>v st'. p < ppos st') (propertyList pe n acc st)"
proof (induction n arbitrary: st acc)
  case 0
  then show ?case by simp
next
  case (Suc n)
  show ?case
    apply (insert Suc.prems inRange_length [OF Suc.prems (2)])
    by ((simp add: prims | rule exprSpec_call [OF pe] Suc.IH | intro conjI impI |
        (simp add: inRange_def; linarith))+)
qed

lemma expressionList_call:
  assumes "exprSpec toks B pe" "ptokens st = toks" "inRange st" "eofIndex toks - ppos st < B"
    "eofIndex toks - ppos st < n" "lo \<le> ppos st"
    and "\<And>v st'. ptokens st' = toks \<Longrightarrow> inRange st' \<Longrightarrow> ppos st < ppos st' \<Longrightarrow>
      good toks lo R (k v st')"
  shows "good toks lo R (andThen (expressionList pe n acc st) k)"
  by (rule good_andThen [OF expressionList_good [where p = "ppos st"]]) (use assms in auto)

lemma propertyList_call:
  assumes "exprSpec toks B pe" "ptokens st = toks" "inRange st" "eofIndex toks - ppos st \<le> B"
    "eofIndex toks - ppos st < n" "lo \<le> ppos st"
    and "\<And>v st'. ptokens st' = toks \<Longrightarrow> inRange st' \<Longrightarrow> ppos st < ppos st' \<Longrightarrow>
      good toks lo R (k v st')"
  shows "good toks lo R (andThen (propertyList pe n acc st) k)"
  by (rule good_andThen [OF propertyList_good [where p = "ppos st"]]) (use assms in auto)

lemma parsePrimary_good:
  assumes pe: "exprSpec toks B pe"
    and "ptokens st = toks" "inRange st" "eofIndex toks - ppos st \<le> B"
    "eofIndex toks - ppos st < n" "lo \<le> ppos st" "p \<le> ppos st"
  shows "good toks lo (\<lambda>v st'. p < ppos st') (parsePrimary pe n st)"
  apply (insert assms (2-) inRange_length [OF assms (3)])
  by ((simp add: prims parsePrimary_def | rule exprSpec_call [OF pe] expressionList_call [OF pe] propertyList_call [OF pe] | intro conjI impI |
      (simp add: inRange_def; linarith))+)

lemma parsePrimary_call:
  assumes "exprSpec toks B pe" "ptokens st = toks" "inRange st" "eofIndex toks - ppos st \<le> B"
    "eofIndex toks - ppos st < n" "lo \<le> ppos st"
    and "\<And>v st'. ptokens st' = toks \<Longrightarrow> inRange st' \<Longrightarrow> ppos st < ppos st' \<Longrightarrow>
      good toks lo R (k v st')"
  shows "good toks lo R (andThen (parsePrimary pe n st) k)"
  by (rule good_andThen [OF parsePrimary_good [where p = "ppos st"]]) (use assms in auto)

lemma parseCallLoop_good:
  assumes pe: "exprSpec toks B pe"
  shows "ptokens st = toks \<Longrightarrow> inRange st \<Longrightarrow> eofIndex toks - ppos st \<le> B \<Longrightarrow>
     eofIndex toks - ppos st < n \<Longrightarrow> lo \<le> ppos st \<Longrightarrow> p < ppos st \<Longrightarrow>
     good toks lo (\<lambda>v st'. p < ppos st') (parseCallLoop pe n expr st)"
proof (induction n arbitrary: st expr)
  case 0
  then show ?case by simp
next
  case (Suc n)
  show ?case
    apply (insert Suc.prems inRange_length [OF Suc.prems (2)])
    by ((simp add: prims | rule exprSpec_call [OF pe] expressionList_call [OF pe] Suc.IH | intro conjI impI |
        (simp add: inRange_def; linarith))+)
qed


lemma parseCall_good:
  assumes pe: "exprSpec toks B pe"
    and "ptokens st = toks" "inRange st" "eofIndex toks - ppos st \<le> B"
    "eofIndex toks - ppos st < n" "lo \<le> ppos st" "p \<le> ppos st"
  shows "good toks lo (\<lambda>v st'. p < ppos st') (parseCall pe n st)"
  apply (insert assms (2-) inRange_length [OF assms (3)])
  by ((simp add: prims parseCall_def | rule parsePrimary_call [OF pe] parseCallLoop_good [OF pe] | intro conjI impI |
      (simp add: inRange_def; linarith))+)

lemma parseCall_call:
  assumes "exprSpec toks B pe" "ptokens st = toks" "inRange st" "eofIndex toks - ppos st \<le> B"
    "eofIndex toks - ppos st < n" "lo \<le> ppos st"
    and "\<And>v st'. ptokens st' = toks \<Longrightarrow> inRange st' \<Longrightarrow> ppos st < ppos st' \<Longrightarrow>
      good toks lo R (k v st')"
  shows "good toks lo R (andThen (parseCall pe n st) k)"
  by (rule good_andThen [OF parseCall_good [where p = "ppos st"]]) (use assms in auto)

lemma parseUnary_good:
  assumes pe: "exprSpec toks B pe"
  shows "ptokens st = toks \<Longrightarrow> inRange st \<Longrightarrow> eofIndex toks - ppos st \<le> B \<Longrightarrow>
     eofIndex toks - ppos st < n \<Longrightarrow> lo \<le> ppos st \<Longrightarrow> p \<le> ppos st \<Longrightarrow>
     good toks lo (\<lambda>v st'. p < ppos st') (parseUnary pe n st)"
proof (induction n arbitrary: st p)
  case 0
  then show ?case by simp
next
  case (Suc n)
  have self: "good toks lo R (andThen (parseUnary pe n st1) k)"
    if "ptokens st1 = toks" "inRange st1" "eofIndex toks - ppos st1 \<le> B"
      "eofIndex toks - ppos st1 < n" "lo \<le> ppos st1"
      "\<And>v st'. ptokens st' = toks \<Longrightarrow> inRange st' \<Longrightarrow> ppos st1 < ppos st' \<Longrightarrow>
        good toks lo R (k v st')"
    for st1 R and k :: "ExpressionNode \<Rightarrow> Parser \<Rightarrow> ExpressionNode Result"
    by (rule good_andThen [OF Suc.IH [where p = "ppos st1"]]) (use that in auto)
  show ?case
    apply (insert Suc.prems inRange_length [OF Suc.prems (2)])
    by ((simp add: prims | rule self parseCall_good [OF pe] | intro conjI impI |
        (simp add: inRange_def; linarith))+)
qed

lemma parseUnary_call:
  assumes "exprSpec toks B pe" "ptokens st = toks" "inRange st" "eofIndex toks - ppos st \<le> B"
    "eofIndex toks - ppos st < n" "lo \<le> ppos st"
    and "\<And>v st'. ptokens st' = toks \<Longrightarrow> inRange st' \<Longrightarrow> ppos st < ppos st' \<Longrightarrow>
      good toks lo R (k v st')"
  shows "good toks lo R (andThen (parseUnary pe n st) k)"
  by (rule good_andThen [OF parseUnary_good [where p = "ppos st"]]) (use assms in auto)

lemma parseFactorLoop_good:
  assumes pe: "exprSpec toks B pe"
  shows "ptokens st = toks \<Longrightarrow> inRange st \<Longrightarrow> eofIndex toks - ppos st \<le> B \<Longrightarrow>
     eofIndex toks - ppos st < n \<Longrightarrow> lo \<le> ppos st \<Longrightarrow> p < ppos st \<Longrightarrow>
     good toks lo (\<lambda>v st'. p < ppos st') (parseFactorLoop pe n left st)"
proof (induction n arbitrary: st left)
  case 0
  then show ?case by simp
next
  case (Suc n)
  show ?case
    apply (insert Suc.prems inRange_length [OF Suc.prems (2)])
    by ((simp add: prims | rule parseUnary_call [OF pe] Suc.IH | intro conjI impI |
        (simp add: inRange_def; linarith))+)
qed


lemma parseFactor_good:
  assumes pe: "exprSpec toks B pe"
    and "ptokens st = toks" "inRange st" "eofIndex toks - ppos st \<le> B"
    "eofIndex toks - ppos st < n" "lo \<le> ppos st" "p \<le> ppos st"
  shows "good toks lo (\<lambda>v st'. p < ppos st') (parseFactor pe n st)"
  apply (insert assms (2-) inRange_length [OF assms (3)])
  by ((simp add: prims parseFactor_def | rule parseUnary_call [OF pe] parseFactorLoop_good [OF pe] | intro conjI impI |
      (simp add: inRange_def; linarith))+)

lemma parseFactor_call:
  assumes "exprSpec toks B pe" "ptokens st = toks" "inRange st" "eofIndex toks - ppos st \<le> B"
    "eofIndex toks - ppos st < n" "lo \<le> ppos st"
    and "\<And>v st'. ptokens st' = toks \<Longrightarrow> inRange st' \<Longrightarrow> ppos st < ppos st' \<Longrightarrow>
      good toks lo R (k v st')"
  shows "good toks lo R (andThen (parseFactor pe n st) k)"
  by (rule good_andThen [OF parseFactor_good [where p = "ppos st"]]) (use assms in auto)

lemma parseTermLoop_good:
  assumes pe: "exprSpec toks B pe"
  shows "ptokens st = toks \<Longrightarrow> inRange st \<Longrightarrow> eofIndex toks - ppos st \<le> B \<Longrightarrow>
     eofIndex toks - ppos st < n \<Longrightarrow> lo \<le> ppos st \<Longrightarrow> p < ppos st \<Longrightarrow>
     good toks lo (\<lambda>v st'. p < ppos st') (parseTermLoop pe n left st)"
proof (induction n arbitrary: st left)
  case 0
  then show ?case by simp
next
  case (Suc n)
  show ?case
    apply (insert Suc.prems inRange_length [OF Suc.prems (2)])
    by ((simp add: prims | rule parseFactor_call [OF pe] Suc.IH | intro conjI impI |
        (simp add: inRange_def; linarith))+)
qed


lemma parseTerm_good:
  assumes pe: "exprSpec toks B pe"
    and "ptokens st = toks" "inRange st" "eofIndex toks - ppos st \<le> B"
    "eofIndex toks - ppos st < n" "lo \<le> ppos st" "p \<le> ppos st"
  shows "good toks lo (\<lambda>v st'. p < ppos st') (parseTerm pe n st)"
  apply (insert assms (2-) inRange_length [OF assms (3)])
  by ((simp add: prims parseTerm_def | rule parseFactor_call [OF pe] parseTermLoop_good [OF pe] | intro conjI impI |
      (simp add: inRange_def; linarith))+)

lemma parseTerm_call:
  assumes "exprSpec toks B pe" "ptokens st = toks" "inRange st" "eofIndex toks - ppos st \<le> B"
    "eofIndex toks - ppos st < n" "lo \<le> ppos st"
    and "\<And>v st'. ptokens st' = toks \<Longrightarrow> inRange st' \<Longrightarrow> ppos st < ppos st' \<Longrightarrow>
      good toks lo R (k v st')"
  shows "good toks lo R (andThen (parseTerm pe n st) k)"
  by (rule good_andThen [OF parseTerm_good [where p = "ppos st"]]) (use assms in auto)

lemma parseComparison_good:
  assumes pe: "exprSpec toks B pe"
    and "ptokens st = toks" "inRange st" "eofIndex toks - ppos st \<le> B"
    "eofIndex toks - ppos st < n" "lo \<le> ppos st" "p \<le> ppos st"
  shows "good toks lo (\<lambda>v st'. p < ppos st') (parseComparison pe n st)"
  unfolding parseComparison_def by (rule parseTerm_good [OF assms])

lemma parseComparison_call:
  assumes "exprSpec toks B pe" "ptokens st = toks" "inRange st" "eofIndex toks - ppos st \<le> B"
    "eofIndex toks - ppos st < n" "lo \<le> ppos st"
    and "\<And>v st'. ptokens st' = toks \<Longrightarrow> inRange st' \<Longrightarrow> ppos st < ppos st' \<Longrightarrow>
      good toks lo R (k v st')"
  shows "good toks lo R (andThen (parseComparison pe n st) k)"
  by (rule good_andThen [OF parseComparison_good [where p = "ppos st"]]) (use assms in auto)

lemma parseEqualityLoop_good:
  assumes pe: "exprSpec toks B pe"
  shows "ptokens st = toks \<Longrightarrow> inRange st \<Longrightarrow> eofIndex toks - ppos st \<le> B \<Longrightarrow>
     eofIndex toks - ppos st < n \<Longrightarrow> lo \<le> ppos st \<Longrightarrow> p < ppos st \<Longrightarrow>
     good toks lo (\<lambda>v st'. p < ppos st') (parseEqualityLoop pe n left st)"
proof (induction n arbitrary: st left)
  case 0
  then show ?case by simp
next
  case (Suc n)
  show ?case
    apply (insert Suc.prems inRange_length [OF Suc.prems (2)])
    by ((simp add: prims | rule parseComparison_call [OF pe] Suc.IH | intro conjI impI |
        (simp add: inRange_def; linarith))+)
qed


lemma parseEquality_good:
  assumes pe: "exprSpec toks B pe"
    and "ptokens st = toks" "inRange st" "eofIndex toks - ppos st \<le> B"
    "eofIndex toks - ppos st < n" "lo \<le> ppos st" "p \<le> ppos st"
  shows "good toks lo (\<lambda>v st'. p < ppos st') (parseEquality pe n st)"
  apply (insert assms (2-) inRange_length [OF assms (3)])
  by ((simp add: prims parseEquality_def | rule parseComparison_call [OF pe] parseEqualityLoop_good [OF pe] | intro conjI impI |
      (simp add: inRange_def; linarith))+)

lemma parseEquality_call:
  assumes "exprSpec toks B pe" "ptokens st = toks" "inRange st" "eofIndex toks - ppos st \<le> B"
    "eofIndex toks - ppos st < n" "lo \<le> ppos st"
    and "\<And>v st'. ptokens st' = toks \<Longrightarrow> inRange st' \<Longrightarrow> ppos st < ppos st' \<Longrightarrow>
      good toks lo R (k v st')"
  shows "good toks lo R (andThen (parseEquality pe n st) k)"
  by (rule good_andThen [OF parseEquality_good [where p = "ppos st"]]) (use assms in auto)

lemma parseAndLoop_good:
  assumes pe: "exprSpec toks B pe"
  shows "ptokens st = toks \<Longrightarrow> inRange st \<Longrightarrow> eofIndex toks - ppos st \<le> B \<Longrightarrow>
     eofIndex toks - ppos st < n \<Longrightarrow> lo \<le> ppos st \<Longrightarrow> p < ppos st \<Longrightarrow>
     good toks lo (\<lambda>v st'. p < ppos st') (parseAndLoop pe n left st)"
proof (induction n arbitrary: st left)
  case 0
  then show ?case by simp
next
  case (Suc n)
  show ?case
    apply (insert Suc.prems inRange_length [OF Suc.prems (2)])
    by ((simp add: prims | rule parseEquality_call [OF pe] Suc.IH | intro conjI impI |
        (simp add: inRange_def; linarith))+)
qed


lemma parseAnd_good:
  assumes pe: "exprSpec toks B pe"
    and "ptokens st = toks" "inRange st" "eofIndex toks - ppos st \<le> B"
    "eofIndex toks - ppos st < n" "lo \<le> ppos st" "p \<le> ppos st"
  shows "good toks lo (\<lambda>v st'. p < ppos st') (parseAnd pe n st)"
  apply (insert assms (2-) inRange_length [OF assms (3)])
  by ((simp add: prims parseAnd_def | rule parseEquality_call [OF pe] parseAndLoop_good [OF pe] | intro conjI impI |
      (simp add: inRange_def; linarith))+)

lemma parseAnd_call:
  assumes "exprSpec toks B pe" "ptokens st = toks" "inRange st" "eofIndex toks - ppos st \<le> B"
    "eofIndex toks - ppos st < n" "lo \<le> ppos st"
    and "\<And>v st'. ptokens st' = toks \<Longrightarrow> inRange st' \<Longrightarrow> ppos st < ppos st' \<Longrightarrow>
      good toks lo R (k v st')"
  shows "good toks lo R (andThen (parseAnd pe n st) k)"
  by (rule good_andThen [OF parseAnd_good [where p = "ppos st"]]) (use assms in auto)

lemma parseOrLoop_good:
  assumes pe: "exprSpec toks B pe"
  shows "ptokens st = toks \<Longrightarrow> inRange st \<Longrightarrow> eofIndex toks - ppos st \<le> B \<Longrightarrow>
     eofIndex toks - ppos st < n \<Longrightarrow> lo \<le> ppos st \<Longrightarrow> p < ppos st \<Longrightarrow>
     good toks lo (\<lambda>v st'. p < ppos st') (parseOrLoop pe n left st)"
proof (induction n arbitrary: st left)
  case 0
  then show ?case by simp
next
  case (Suc n)
  show ?case
    apply (insert Suc.prems inRange_length [OF Suc.prems (2)])
    by ((simp add: prims | rule parseAnd_call [OF pe] Suc.IH | intro conjI impI |
        (simp add: inRange_def; linarith))+)
qed


lemma parseOr_good:
  assumes pe: "exprSpec toks B pe"
    and "ptokens st = toks" "inRange st" "eofIndex toks - ppos st \<le> B"
    "eofIndex toks - ppos st < n" "lo \<le> ppos st" "p \<le> ppos st"
  shows "good toks lo (\<lambda>v st'. p < ppos st') (parseOr pe n st)"
  apply (insert assms (2-) inRange_length [OF assms (3)])
  by ((simp add: prims parseOr_def | rule parseAnd_call [OF pe] parseOrLoop_good [OF pe] | intro conjI impI |
      (simp add: inRange_def; linarith))+)

lemma parseOr_call:
  assumes "exprSpec toks B pe" "ptokens st = toks" "inRange st" "eofIndex toks - ppos st \<le> B"
    "eofIndex toks - ppos st < n" "lo \<le> ppos st"
    and "\<And>v st'. ptokens st' = toks \<Longrightarrow> inRange st' \<Longrightarrow> ppos st < ppos st' \<Longrightarrow>
      good toks lo R (k v st')"
  shows "good toks lo R (andThen (parseOr pe n st) k)"
  by (rule good_andThen [OF parseOr_good [where p = "ppos st"]]) (use assms in auto)

lemma parsePipeLoop_good:
  assumes pe: "exprSpec toks B pe"
  shows "ptokens st = toks \<Longrightarrow> inRange st \<Longrightarrow> eofIndex toks - ppos st \<le> B \<Longrightarrow>
     eofIndex toks - ppos st < n \<Longrightarrow> lo \<le> ppos st \<Longrightarrow> p < ppos st \<Longrightarrow>
     good toks lo (\<lambda>v st'. p < ppos st') (parsePipeLoop pe n left st)"
proof (induction n arbitrary: st left)
  case 0
  then show ?case by simp
next
  case (Suc n)
  show ?case
    apply (insert Suc.prems inRange_length [OF Suc.prems (2)])
    by ((simp add: prims | rule parseOr_call [OF pe] Suc.IH | intro conjI impI |
        (simp add: inRange_def; linarith))+)
qed


lemma parsePipe_good:
  assumes pe: "exprSpec toks B pe"
    and "ptokens st = toks" "inRange st" "eofIndex toks - ppos st \<le> B"
    "eofIndex toks - ppos st < n" "lo \<le> ppos st" "p \<le> ppos st"
  shows "good toks lo (\<lambda>v st'. p < ppos st') (parsePipe pe n st)"
  apply (insert assms (2-) inRange_length [OF assms (3)])
  by ((simp add: prims parsePipe_def | rule parseOr_call [OF pe] parsePipeLoop_good [OF pe] | intro conjI impI |
      (simp add: inRange_def; linarith))+)

lemma parsePipe_call:
  assumes "exprSpec toks B pe" "ptokens st = toks" "inRange st" "eofIndex toks - ppos st \<le> B"
    "eofIndex toks - ppos st < n" "lo \<le> ppos st"
    and "\<And>v st'. ptokens st' = toks \<Longrightarrow> inRange st' \<Longrightarrow> ppos st < ppos st' \<Longrightarrow>
      good toks lo R (k v st')"
  shows "good toks lo R (andThen (parsePipe pe n st) k)"
  by (rule good_andThen [OF parsePipe_good [where p = "ppos st"]]) (use assms in auto)

text \<open>
  \<open>parseExpression n\<close> returns or throws from every state in range with fewer than \<open>n\<close>
  tokens before the \<open>EOF\<close> token.
\<close>

lemma parseExpression_spec: "exprSpec toks n (parseExpression n)"
proof (induction n)
  case 0
  show ?case by (simp add: exprSpec_def)
next
  case (Suc n)
  show ?case
    unfolding exprSpec_def
  proof (intro allI impI, elim conjE)
    fix st lo p
    assume "ptokens st = toks" "inRange st" "eofIndex toks - ppos st < Suc n" "lo \<le> ppos st"
      "p \<le> ppos st"
    then show "good toks lo (\<lambda>v st'. p < ppos st') (parseExpression (Suc n) st)"
      by (simp add: parsePipe_good [OF Suc])
  qed
qed

lemma parseExpression_good:
  assumes "ptokens st = toks" "inRange st" "eofIndex toks - ppos st < n" "lo \<le> ppos st"
    "p \<le> ppos st"
  shows "good toks lo (\<lambda>v st'. p < ppos st') (parseExpression n st)"
  using parseExpression_spec [of toks n] assms unfolding exprSpec_def by blast

lemma parseExpression_call:
  assumes "ptokens st = toks" "inRange st" "eofIndex toks - ppos st < n" "lo \<le> ppos st"
    and "\<And>v st'. ptokens st' = toks \<Longrightarrow> inRange st' \<Longrightarrow> ppos st < ppos st' \<Longrightarrow>
      good toks lo R (k v st')"
  shows "good toks lo R (andThen (parseExpression n st) k)"
  by (rule good_andThen [OF parseExpression_good [where p = "ppos st"]]) (use assms in auto)

subsection \<open>Statements\<close>

lemma identifierList_good:
  "ptokens st = toks \<Longrightarrow> inRange st \<Longrightarrow> eofIndex toks - ppos st < n \<Longrightarrow> lo \<le> ppos st \<Longrightarrow>
   p \<le> ppos st \<Longrightarrow> good toks lo (\<lambda>v st'. p < ppos st') (identifierList n msg acc st)"
proof (induction n arbitrary: st acc)
  case 0
  then show ?case by simp
next
  case (Suc n)
  show ?case
    apply (insert Suc.prems inRange_length [OF Suc.prems (2)])
    by ((simp add: prims | rule Suc.IH | intro conjI impI |
        (simp add: inRange_def; linarith))+)
qed

lemma identifierList_call:
  assumes "ptokens st = toks" "inRange st" "eofIndex toks - ppos st < n" "lo \<le> ppos st"
    and "\<And>v st'. ptokens st' = toks \<Longrightarrow> inRange st' \<Longrightarrow> ppos st < ppos st' \<Longrightarrow>
      good toks lo R (k v st')"
  shows "good toks lo R (andThen (identifierList n msg acc st) k)"
  by (rule good_andThen [OF identifierList_good [where p = "ppos st"]]) (use assms in auto)




















subsection \<open>The errors recorded\<close>

text \<open>
  \<open>recorded E r\<close>: a method that started with the error list \<open>E\<close> and gave the result
  \<open>r\<close> has left the list as it was, unless it threw a \<open>ParseError\<close>; then it has appended
  exactly one error, whose token is the current token of the state it threw in. Every
  \<open>throw\<close> of the parser is a \<open>throw this.error(this.peek(), ...)\<close>, and nothing below
  \<open>parse\<close> catches.
\<close>

definition recorded :: "ParseError list \<Rightarrow> 'a Result \<Rightarrow> bool" where
  "recorded E r =
     (case r of
        Ok v st' \<Rightarrow> perrors st' = E
      | Thrown e st' \<Rightarrow>
          (case e of
             ParseFailure \<Rightarrow> \<exists>msg. perrors st' = E @ [\<lparr>pmessage = msg, ptoken = peekP st'\<rparr>]
           | TypeError \<Rightarrow> perrors st' = E)
      | OutOfFuel \<Rightarrow> True)"

lemma recorded_simps [simp]:
  "recorded E (Ok v st) \<longleftrightarrow> perrors st = E"
  "recorded E (Thrown TypeError st) \<longleftrightarrow> perrors st = E"
  "recorded E (Thrown ParseFailure st) \<longleftrightarrow>
     (\<exists>msg. perrors st = E @ [\<lparr>pmessage = msg, ptoken = peekP st\<rparr>])"
  "recorded E OutOfFuel"
  by (simp_all add: recorded_def)

lemma recorded_Ok: "perrors st = E \<Longrightarrow> recorded E (Ok v st)"
  by simp

lemma recorded_error:
  "perrors st = E \<Longrightarrow> recorded E (Thrown ParseFailure (error (peekP st) msg st))"
  by (simp add: error_def peekP_def)

lemma recorded_andThen:
  assumes "recorded E m" and "\<And>v st'. perrors st' = E \<Longrightarrow> recorded E (k v st')"
  shows "recorded E (andThen m k)"
proof (cases m)
  case (Thrown e st)
  with assms (1) show ?thesis by (cases e) simp_all
qed (use assms in simp_all)

lemma recorded_orElse:
  assumes "recorded E r" and "\<And>st'. perrors st' = E \<Longrightarrow> recorded E (f st')"
  shows "recorded E (orElse r f)"
  unfolding orElse_def by (rule recorded_andThen [OF assms (1)]) (simp add: assms (2))

lemma recorded_if:
  "(c \<Longrightarrow> recorded E a) \<Longrightarrow> (\<not> c \<Longrightarrow> recorded E b) \<Longrightarrow> recorded E (if c then a else b)"
  by simp

lemma recorded_typeOf: "perrors st = E \<Longrightarrow> recorded E (typeOf t st)"
  by (cases t) (simp_all add: typeOf_def)

lemma recorded_valueOf: "perrors st = E \<Longrightarrow> recorded E (valueOf t st)"
  by (cases t) (simp_all add: valueOf_def)

lemma recorded_isAtEndP: "perrors st = E \<Longrightarrow> recorded E (isAtEndP st)"
  unfolding isAtEndP_def by (intro recorded_andThen recorded_typeOf recorded_Ok)

lemma recorded_checkP: "perrors st = E \<Longrightarrow> recorded E (checkP ty st)"
  unfolding checkP_def
  by (intro recorded_andThen recorded_isAtEndP recorded_if recorded_typeOf recorded_Ok)

lemma recorded_advanceP: "perrors st = E \<Longrightarrow> recorded E (advanceP st)"
  unfolding advanceP_def Let_def
  by (intro recorded_andThen recorded_isAtEndP recorded_Ok) simp_all

lemma recorded_matchP: "perrors st = E \<Longrightarrow> recorded E (matchP ty st)"
  unfolding matchP_def
  by (intro recorded_andThen recorded_checkP recorded_if recorded_advanceP recorded_Ok)

lemma recorded_expect: "perrors st = E \<Longrightarrow> recorded E (expect ty msg st)"
  unfolding expect_def
  by (intro recorded_andThen recorded_checkP recorded_if recorded_advanceP recorded_error)

lemma recorded_expectValue: "perrors st = E \<Longrightarrow> recorded E (expectValue ty msg st)"
  unfolding expectValue_def
  by (intro recorded_andThen recorded_expect recorded_valueOf)

lemma recorded_previousValue: "perrors st = E \<Longrightarrow> recorded E (previousValue st)"
  unfolding previousValue_def by (rule recorded_valueOf)

lemmas recorded_intros = recorded_andThen recorded_orElse recorded_if recorded_Ok recorded_error
  recorded_typeOf recorded_valueOf recorded_isAtEndP recorded_checkP recorded_advanceP
  recorded_matchP recorded_expect recorded_expectValue recorded_previousValue

text \<open>\<open>records p\<close>: the parser \<open>p\<close> does so from every state.\<close>

definition records :: "'a parser \<Rightarrow> bool" where
  "records p \<longleftrightarrow> (\<forall>st. recorded (perrors st) (p st))"

lemma recordsD: "records p \<Longrightarrow> perrors st = E \<Longrightarrow> recorded E (p st)"
  unfolding records_def by blast

lemma recorded_identifierList:
  "perrors st = E \<Longrightarrow> recorded E (identifierList n msg acc st)"
proof (induction n arbitrary: st acc)
  case (Suc n)
  then show ?case unfolding identifierList.simps by (intro recorded_intros Suc.IH)
qed simp

lemma recorded_expressionList:
  assumes pe: "records pe"
  shows "perrors st = E \<Longrightarrow> recorded E (expressionList pe n acc st)"
proof (induction n arbitrary: st acc)
  case (Suc n)
  then show ?case
    unfolding expressionList.simps by (intro recorded_intros recordsD [OF pe] Suc.IH)
qed simp

lemma recorded_propertyList:
  assumes pe: "records pe"
  shows "perrors st = E \<Longrightarrow> recorded E (propertyList pe n acc st)"
proof (induction n arbitrary: st acc)
  case (Suc n)
  then show ?case
    unfolding propertyList.simps by (intro recorded_intros recordsD [OF pe] Suc.IH)
qed simp

lemma recorded_parsePrimary:
  assumes pe: "records pe"
  shows "perrors st = E \<Longrightarrow> recorded E (parsePrimary pe n st)"
  unfolding parsePrimary_def
  by (intro recorded_intros recordsD [OF pe] recorded_expressionList [OF pe]
      recorded_propertyList [OF pe])

lemma recorded_parseCallLoop:
  assumes pe: "records pe"
  shows "perrors st = E \<Longrightarrow> recorded E (parseCallLoop pe n expr st)"
proof (induction n arbitrary: st expr)
  case (Suc n)
  then show ?case
    unfolding parseCallLoop.simps
    by (intro recorded_intros recordsD [OF pe] recorded_expressionList [OF pe] Suc.IH)
qed simp

lemma recorded_parseCall:
  assumes pe: "records pe"
  shows "perrors st = E \<Longrightarrow> recorded E (parseCall pe n st)"
  unfolding parseCall_def
  by (intro recorded_intros recorded_parsePrimary [OF pe] recorded_parseCallLoop [OF pe])

lemma recorded_parseUnary:
  assumes pe: "records pe"
  shows "perrors st = E \<Longrightarrow> recorded E (parseUnary pe n st)"
proof (induction n arbitrary: st)
  case (Suc n)
  then show ?case
    unfolding parseUnary.simps
    by (intro recorded_intros recorded_parseCall [OF pe] Suc.IH)
qed simp

lemma recorded_parseFactorLoop:
  assumes pe: "records pe"
  shows "perrors st = E \<Longrightarrow> recorded E (parseFactorLoop pe n left st)"
proof (induction n arbitrary: st left)
  case (Suc n)
  then show ?case
    unfolding parseFactorLoop.simps
    by (intro recorded_intros recorded_parseUnary [OF pe] Suc.IH)
qed simp

lemma recorded_parseFactor:
  assumes pe: "records pe"
  shows "perrors st = E \<Longrightarrow> recorded E (parseFactor pe n st)"
  unfolding parseFactor_def
  by (intro recorded_intros recorded_parseUnary [OF pe] recorded_parseFactorLoop [OF pe])

lemma recorded_parseTermLoop:
  assumes pe: "records pe"
  shows "perrors st = E \<Longrightarrow> recorded E (parseTermLoop pe n left st)"
proof (induction n arbitrary: st left)
  case (Suc n)
  then show ?case
    unfolding parseTermLoop.simps
    by (intro recorded_intros recorded_parseFactor [OF pe] Suc.IH)
qed simp

lemma recorded_parseTerm:
  assumes pe: "records pe"
  shows "perrors st = E \<Longrightarrow> recorded E (parseTerm pe n st)"
  unfolding parseTerm_def
  by (intro recorded_intros recorded_parseFactor [OF pe] recorded_parseTermLoop [OF pe])

lemma recorded_parseComparison:
  assumes pe: "records pe"
  shows "perrors st = E \<Longrightarrow> recorded E (parseComparison pe n st)"
  unfolding parseComparison_def by (rule recorded_parseTerm [OF pe])

lemma recorded_parseEqualityLoop:
  assumes pe: "records pe"
  shows "perrors st = E \<Longrightarrow> recorded E (parseEqualityLoop pe n left st)"
proof (induction n arbitrary: st left)
  case (Suc n)
  then show ?case
    unfolding parseEqualityLoop.simps
    by (intro recorded_intros recorded_parseComparison [OF pe] Suc.IH)
qed simp

lemma recorded_parseEquality:
  assumes pe: "records pe"
  shows "perrors st = E \<Longrightarrow> recorded E (parseEquality pe n st)"
  unfolding parseEquality_def
  by (intro recorded_intros recorded_parseComparison [OF pe] recorded_parseEqualityLoop [OF pe])

lemma recorded_parseAndLoop:
  assumes pe: "records pe"
  shows "perrors st = E \<Longrightarrow> recorded E (parseAndLoop pe n left st)"
proof (induction n arbitrary: st left)
  case (Suc n)
  then show ?case
    unfolding parseAndLoop.simps
    by (intro recorded_intros recorded_parseEquality [OF pe] Suc.IH)
qed simp

lemma recorded_parseAnd:
  assumes pe: "records pe"
  shows "perrors st = E \<Longrightarrow> recorded E (parseAnd pe n st)"
  unfolding parseAnd_def
  by (intro recorded_intros recorded_parseEquality [OF pe] recorded_parseAndLoop [OF pe])

lemma recorded_parseOrLoop:
  assumes pe: "records pe"
  shows "perrors st = E \<Longrightarrow> recorded E (parseOrLoop pe n left st)"
proof (induction n arbitrary: st left)
  case (Suc n)
  then show ?case
    unfolding parseOrLoop.simps
    by (intro recorded_intros recorded_parseAnd [OF pe] Suc.IH)
qed simp

lemma recorded_parseOr:
  assumes pe: "records pe"
  shows "perrors st = E \<Longrightarrow> recorded E (parseOr pe n st)"
  unfolding parseOr_def
  by (intro recorded_intros recorded_parseAnd [OF pe] recorded_parseOrLoop [OF pe])

lemma recorded_parsePipeLoop:
  assumes pe: "records pe"
  shows "perrors st = E \<Longrightarrow> recorded E (parsePipeLoop pe n left st)"
proof (induction n arbitrary: st left)
  case (Suc n)
  then show ?case
    unfolding parsePipeLoop.simps
    by (intro recorded_intros recorded_parseOr [OF pe] Suc.IH)
qed simp

lemma recorded_parsePipe:
  assumes pe: "records pe"
  shows "perrors st = E \<Longrightarrow> recorded E (parsePipe pe n st)"
  unfolding parsePipe_def
  by (intro recorded_intros recorded_parseOr [OF pe] recorded_parsePipeLoop [OF pe])

lemma records_parseExpression: "records (parseExpression n)"
proof (induction n)
  case 0
  show ?case by (simp add: records_def)
next
  case (Suc n)
  show ?case
    unfolding records_def by (simp add: recorded_parsePipe [OF Suc])
qed

lemmas recorded_parseExpression = recordsD [OF records_parseExpression]

lemma recorded_parseBlock:
  assumes ps: "records ps"
  shows "perrors st = E \<Longrightarrow> recorded E (parseBlock ps n body st)"
proof (induction n arbitrary: st body)
  case (Suc n)
  then show ?case
    unfolding parseBlock.simps
    by (intro recorded_intros recordsD [OF ps] Suc.IH)
qed simp

lemma recorded_parseTemplateLoop:
  "perrors st = E \<Longrightarrow> recorded E (parseTemplateLoop n parts st)"
proof (induction n arbitrary: st parts)
  case (Suc n)
  then show ?case
    unfolding parseTemplateLoop.simps
    by (intro recorded_intros recorded_parseExpression Suc.IH)
qed simp

lemma recorded_statement:
  assumes ps: "records ps"
  shows "perrors st = E \<Longrightarrow> recorded E (statement ps n st)"
  unfolding statement_def parseVariableDeclaration_def parseFunctionDeclaration_def
    parseReturnStatement_def parseIfStatement_def parseForStatement_def
    parseImportStatement_def parseExportStatement_def parseTemplateStatement_def
    parseExpressionStatement_def
  by (cases "peekP st"; simp only: option.case)
     (simp, intro recorded_intros recordsD [OF ps] recorded_parseExpression
        recorded_identifierList recorded_parseBlock [OF ps] recorded_parseTemplateLoop)

lemma records_parseStatement: "records (parseStatement n)"
proof (induction n)
  case 0
  show ?case by (simp add: records_def)
next
  case (Suc n)
  show ?case
    unfolding records_def by (simp add: recorded_statement [OF Suc])
qed

subsection \<open>Resynchronization and the top-level loop\<close>

text \<open>
  \<open>settled st\<close>: the parser is at a statement boundary: at the end, just past a
  semicolon, or at one of the eight keywords that start a statement.
\<close>

definition settled :: "Parser \<Rightarrow> bool" where
  "settled st \<longleftrightarrow>
     (case peekP st of
        None \<Rightarrow> False
      | Some t \<Rightarrow>
          ttype t = EOF \<or>
          (case previous st of None \<Rightarrow> False | Some q \<Rightarrow> ttype q = SEMICOLON) \<or>
          (ttype t = KEYWORD \<and>
           tvalue t \<in> {''let'', ''const'', ''fn'', ''if'', ''for'', ''return'', ''import'',
             ''export''}))"

lemma syncKeywords_set:
  "set syncKeywords =
     {''let'', ''const'', ''fn'', ''if'', ''for'', ''return'', ''import'', ''export''}"
  by (simp add: syncKeywords_def)

lemma previous_inRange:
  "inRange st \<Longrightarrow> 0 < ppos st \<Longrightarrow> previous st = Some (ptokens st ! (ppos st - 1))"
  by (auto simp: previous_def inRange_def)

lemma syncLoop_good:
  "ptokens st = toks \<Longrightarrow> inRange st \<Longrightarrow> eofIndex toks - ppos st < n \<Longrightarrow>
   0 < ppos st \<or> \<not> ppos st < eofIndex toks \<Longrightarrow>
   \<exists>st'. syncLoop n st = Ok () st' \<and> ptokens st' = toks \<and> inRange st' \<and> ppos st \<le> ppos st' \<and>
     perrors st' = perrors st \<and> settled st'"
proof (induction n arbitrary: st)
  case 0
  then show ?case by simp
next
  case (Suc n)
  show ?case
  proof (cases "ppos st < eofIndex toks")
    case False
    with Suc.prems show ?thesis
      using inRange_atEnd [of st]
      by (simp add: prims settled_def)
  next
    case True
    with Suc.prems have pos: "0 < ppos st" by simp
    note prev = previous_inRange [OF Suc.prems (2) pos]
    show ?thesis
    proof (cases "ttype (toks ! (ppos st - 1)) = SEMICOLON \<or>
        (ttype (toks ! ppos st) = KEYWORD \<and> tvalue (toks ! ppos st) \<in> set syncKeywords)")
      case stop: True
      with Suc.prems True prev show ?thesis
        by (auto simp: prims typeOf_def settled_def syncKeywords_set)
    next
      case go: False
      let ?st1 = "st\<lparr>ppos := Suc (ppos st)\<rparr>"
      have "syncLoop (Suc n) st = syncLoop n ?st1"
        using Suc.prems True prev go by (auto simp: prims typeOf_def)
      moreover have "\<exists>st'. syncLoop n ?st1 = Ok () st' \<and> ptokens st' = toks \<and> inRange st' \<and>
          ppos ?st1 \<le> ppos st' \<and> perrors st' = perrors ?st1 \<and> settled st'"
        using Suc.prems True by (intro Suc.IH) (auto simp: inRange_def)
      ultimately show ?thesis by auto
    qed
  qed
qed

lemma synchronize_good:
  assumes "ptokens st = toks" "inRange st" "eofIndex toks - ppos st < n"
  shows "\<exists>st'. synchronize n st = Ok () st' \<and> ptokens st' = toks \<and> inRange st' \<and>
     ppos st \<le> ppos st' \<and> (ppos st < eofIndex toks \<longrightarrow> ppos st < ppos st') \<and>
     perrors st' = perrors st \<and> settled st'"
proof (cases "ppos st < eofIndex toks")
  case True
  let ?st1 = "st\<lparr>ppos := Suc (ppos st)\<rparr>"
  have "synchronize n st = syncLoop n ?st1"
    using assms True by (simp add: synchronize_def advanceP_inRange)
  moreover have "\<exists>st'. syncLoop n ?st1 = Ok () st' \<and> ptokens st' = toks \<and> inRange st' \<and>
      ppos ?st1 \<le> ppos st' \<and> perrors st' = perrors ?st1 \<and> settled st'"
    using assms True by (intro syncLoop_good) (auto simp: inRange_def)
  ultimately show ?thesis by auto
next
  case False
  have "synchronize n st = syncLoop n st"
    using assms False by (simp add: synchronize_def advanceP_inRange)
  moreover have "\<exists>st'. syncLoop n st = Ok () st' \<and> ptokens st' = toks \<and> inRange st' \<and>
      ppos st \<le> ppos st' \<and> perrors st' = perrors st \<and> settled st'"
    using assms False by (intro syncLoop_good) (auto simp: inRange_def)
  ultimately show ?thesis using False by auto
qed

text \<open>
  \<open>firstBoundary st q\<close>: \<open>q\<close> is where \<open>synchronize\<close> called in the state \<open>st\<close> has to stop.
  It always skips the current token; \<open>q\<close> is the first position after it where the
  parser is settled, no position in between being so. At the end of the tokens the
  parser stays where it is.
\<close>

definition firstBoundary :: "Parser \<Rightarrow> nat \<Rightarrow> bool" where
  "firstBoundary st q \<longleftrightarrow>
     settled (st\<lparr>ppos := q\<rparr>) \<and>
     (if ppos st < eofIndex (ptokens st) then ppos st < q else q = ppos st) \<and>
     list_all (\<lambda>p. \<not> settled (st\<lparr>ppos := p\<rparr>)) [Suc (ppos st)..<q]"

lemma syncLoop_first:
  "inRange st \<Longrightarrow> eofIndex (ptokens st) - ppos st < n \<Longrightarrow>
   0 < ppos st \<or> \<not> ppos st < eofIndex (ptokens st) \<Longrightarrow>
   \<exists>q. syncLoop n st = Ok () (st\<lparr>ppos := q\<rparr>) \<and> ppos st \<le> q \<and>
     q \<le> eofIndex (ptokens st) \<and> settled (st\<lparr>ppos := q\<rparr>) \<and>
     list_all (\<lambda>p. \<not> settled (st\<lparr>ppos := p\<rparr>)) [ppos st..<q]"
proof (induction n arbitrary: st)
  case 0
  then show ?case by simp
next
  case (Suc n)
  let ?toks = "ptokens st"
  show ?case
  proof (cases "ppos st < eofIndex ?toks")
    case False
    with Suc.prems have "syncLoop (Suc n) st = Ok () st" "settled st"
      using inRange_atEnd [of st] by (simp_all add: prims settled_def)
    then show ?thesis
      using Suc.prems (1) by (intro exI [of _ "ppos st"]) (simp add: inRange_def)
  next
    case True
    with Suc.prems have pos: "0 < ppos st" by simp
    note prev = previous_inRange [OF Suc.prems (1) pos]
    show ?thesis
    proof (cases "ttype (?toks ! (ppos st - 1)) = SEMICOLON \<or>
        (ttype (?toks ! ppos st) = KEYWORD \<and> tvalue (?toks ! ppos st) \<in> set syncKeywords)")
      case stop: True
      with Suc.prems True prev have "syncLoop (Suc n) st = Ok () st" "settled st"
        by (auto simp: prims typeOf_def settled_def syncKeywords_set)
      then show ?thesis
        using Suc.prems (1) by (intro exI [of _ "ppos st"]) (simp add: inRange_def)
    next
      case go: False
      let ?st1 = "st\<lparr>ppos := Suc (ppos st)\<rparr>"
      have eq: "syncLoop (Suc n) st = syncLoop n ?st1"
        using Suc.prems True prev go by (auto simp: prims typeOf_def)
      have ns: "\<not> settled st"
        using Suc.prems True prev go inRange_atEnd [of st]
        by (auto simp: settled_def peekP_inRange syncKeywords_set)
      have "\<exists>q. syncLoop n ?st1 = Ok () (?st1\<lparr>ppos := q\<rparr>) \<and> ppos ?st1 \<le> q \<and>
          q \<le> eofIndex (ptokens ?st1) \<and> settled (?st1\<lparr>ppos := q\<rparr>) \<and>
          list_all (\<lambda>p. \<not> settled (?st1\<lparr>ppos := p\<rparr>)) [ppos ?st1..<q]"
        using Suc.prems True by (intro Suc.IH) (auto simp: inRange_def)
      then obtain q where q: "syncLoop n ?st1 = Ok () (st\<lparr>ppos := q\<rparr>)" "Suc (ppos st) \<le> q"
        "q \<le> eofIndex ?toks" "settled (st\<lparr>ppos := q\<rparr>)"
        "list_all (\<lambda>p. \<not> settled (st\<lparr>ppos := p\<rparr>)) [Suc (ppos st)..<q]"
        by auto
      from q (2) have "[ppos st..<q] = ppos st # [Suc (ppos st)..<q]"
        by (simp add: upt_conv_Cons)
      with q ns eq show ?thesis
        by (intro exI [of _ q]) simp
    qed
  qed
qed

lemma synchronize_first:
  assumes "inRange st" "eofIndex (ptokens st) - ppos st < n"
  shows "\<exists>q. synchronize n st = Ok () (st\<lparr>ppos := q\<rparr>) \<and> firstBoundary st q \<and>
     q \<le> eofIndex (ptokens st)"
proof (cases "ppos st < eofIndex (ptokens st)")
  case True
  let ?st1 = "st\<lparr>ppos := Suc (ppos st)\<rparr>"
  have "synchronize n st = syncLoop n ?st1"
    using assms True by (simp add: synchronize_def advanceP_inRange)
  moreover have "\<exists>q. syncLoop n ?st1 = Ok () (?st1\<lparr>ppos := q\<rparr>) \<and> ppos ?st1 \<le> q \<and>
      q \<le> eofIndex (ptokens ?st1) \<and> settled (?st1\<lparr>ppos := q\<rparr>) \<and>
      list_all (\<lambda>p. \<not> settled (?st1\<lparr>ppos := p\<rparr>)) [ppos ?st1..<q]"
    using assms True by (intro syncLoop_first) (auto simp: inRange_def)
  ultimately show ?thesis using True by (auto simp: firstBoundary_def)
next
  case False
  have "synchronize n st = syncLoop n st"
    using assms False by (simp add: synchronize_def advanceP_inRange)
  moreover have "syncLoop n st = Ok () st" "settled st"
    using assms False inRange_atEnd [of st]
    by (cases n; simp add: prims settled_def)+
  moreover have same: "st\<lparr>ppos := ppos st\<rparr> = st" by simp
  ultimately have "synchronize n st = Ok () (st\<lparr>ppos := ppos st\<rparr>)"
    "firstBoundary st (ppos st)" "ppos st \<le> eofIndex (ptokens st)"
    using False assms (1) unfolding firstBoundary_def same by (simp_all add: inRange_def)
  then show ?thesis by blast
qed




text \<open>The constructor keeps the \<open>EOF\<close> token; the parser starts in range.\<close>

lemma takeWhile_shorter: "\<exists>x \<in> set xs. \<not> P x \<Longrightarrow> length (takeWhile P xs) < length xs"
  by (induction xs) auto

lemma newParser_inRange:
  assumes "toks \<noteq> []" "ttype (last toks) = EOF"
  shows "inRange (newParser toks)"
proof -
  let ?keep = "\<lambda>t. ttype t \<noteq> COMMENT \<and> ttype t \<noteq> NEWLINE"
  from assms have "last toks \<in> set (filter ?keep toks)" by simp
  then have "\<exists>t \<in> set (filter ?keep toks). \<not> ttype t \<noteq> EOF" using assms (2) by blast
  then have "length (takeWhile (\<lambda>t. ttype t \<noteq> EOF) (filter ?keep toks)) < length (filter ?keep toks)"
    by (rule takeWhile_shorter)
  then show ?thesis by (simp add: inRange_def newParser_def eofIndex_def)
qed



text \<open>The last case of \<open>parsePrimary\<close>: no token that starts an expression.\<close>

lemma parsePrimary_throws:
  assumes "peekP st = Some t"
    and "ttype t \<notin> set [NUMBER, STRING, BOOLEAN, NULL, IDENTIFIER, LBRACKET, LBRACE, LPAREN]"
  shows "parsePrimary pe n st =
     Thrown ParseFailure
       (st\<lparr>perrors := perrors st @ [\<lparr>pmessage = ''Expected expression'', ptoken = Some t\<rparr>]\<rparr>)"
  using assms by (simp add: parsePrimary_def matchP_peek error_def)

text \<open>
  Claim C6. The input \<open>let ;\<close> gives exactly one syntax error, \<open>Expected variable name\<close>,
  whose token is the \<open>;\<close> token, and an empty program; with a second statement after it,
  \<open>let ; let x = 1;\<close>, the same single error and the second statement parsed. In
  \<open>let 1 let x = 2;\<close> the parser resumes at the keyword \<open>let\<close>, with no semicolon in
  between, and in \<open>let x = ;\<close> the error is the one of \<open>parsePrimary\<close>. In general:
  when the check of \<open>expect\<close> fails, \<open>expect\<close> appends the error made of its message and
  the current token and throws; \<open>parsePrimary\<close> does the same at a token that starts no
  expression; whenever \<open>parseStatement\<close> throws a \<open>ParseError\<close> it has appended exactly
  one error, whose token is the current one; and \<open>synchronize\<close>, from any state in range
  and with a bound above the number of tokens left, skips the current token and stops
  at the first position after it that is at the end, just past a semicolon or at a
  keyword that starts a statement.
\<close>

theorem expectation_failure_recovery:
  "parse (fst (tokenize ''let ;'')) =
     Returned (Program [])
       [\<lparr>pmessage = ''Expected variable name'',
         ptoken = Some \<lparr>ttype = SEMICOLON, tvalue = '';'', tline = 1, tcolumn = 5,
           tlength = 1\<rparr>\<rparr>] \<and>
   parse (fst (tokenize ''let ; let x = 1;'')) =
     Returned (Program [VariableDeclaration ''let'' ''x'' (Some (Literal (NumberValue ''1'') ''1''))])
       [\<lparr>pmessage = ''Expected variable name'',
         ptoken = Some \<lparr>ttype = SEMICOLON, tvalue = '';'', tline = 1, tcolumn = 5,
           tlength = 1\<rparr>\<rparr>] \<and>
   parse (fst (tokenize ''let 1 let x = 2;'')) =
     Returned (Program [VariableDeclaration ''let'' ''x'' (Some (Literal (NumberValue ''2'') ''2''))])
       [\<lparr>pmessage = ''Expected variable name'',
         ptoken = Some \<lparr>ttype = NUMBER, tvalue = ''1'', tline = 1, tcolumn = 5,
           tlength = 1\<rparr>\<rparr>] \<and>
   parse (fst (tokenize ''let x = ;'')) =
     Returned (Program [])
       [\<lparr>pmessage = ''Expected expression'',
         ptoken = Some \<lparr>ttype = SEMICOLON, tvalue = '';'', tline = 1, tcolumn = 9,
           tlength = 1\<rparr>\<rparr>] \<and>
   (checkP ty st = Ok False st \<longrightarrow>
      expect ty msg st =
        Thrown ParseFailure (st\<lparr>perrors := perrors st @ [\<lparr>pmessage = msg, ptoken = peekP st\<rparr>]\<rparr>)) \<and>
   (peekP sp = Some t \<and>
    ttype t \<notin> set [NUMBER, STRING, BOOLEAN, NULL, IDENTIFIER, LBRACKET, LBRACE, LPAREN] \<longrightarrow>
      parsePrimary pe m sp =
        Thrown ParseFailure
          (sp\<lparr>perrors := perrors sp @
             [\<lparr>pmessage = ''Expected expression'', ptoken = Some t\<rparr>]\<rparr>)) \<and>
   (parseStatement k ss = Thrown ParseFailure ss' \<longrightarrow>
      (\<exists>text. perrors ss' = perrors ss @ [\<lparr>pmessage = text, ptoken = peekP ss'\<rparr>])) \<and>
   (inRange sy \<and> eofIndex (ptokens sy) - ppos sy < n \<longrightarrow>
      (\<exists>q. synchronize n sy = Ok () (sy\<lparr>ppos := q\<rparr>) \<and> firstBoundary sy q))"
proof (intro conjI impI)
  show "parse (fst (tokenize ''let ;'')) =
     Returned (Program [])
       [\<lparr>pmessage = ''Expected variable name'',
         ptoken = Some \<lparr>ttype = SEMICOLON, tvalue = '';'', tline = 1, tcolumn = 5,
           tlength = 1\<rparr>\<rparr>]"
    by code_simp
  show "parse (fst (tokenize ''let ; let x = 1;'')) =
     Returned (Program [VariableDeclaration ''let'' ''x'' (Some (Literal (NumberValue ''1'') ''1''))])
       [\<lparr>pmessage = ''Expected variable name'',
         ptoken = Some \<lparr>ttype = SEMICOLON, tvalue = '';'', tline = 1, tcolumn = 5,
           tlength = 1\<rparr>\<rparr>]"
    by code_simp
  show "parse (fst (tokenize ''let 1 let x = 2;'')) =
     Returned (Program [VariableDeclaration ''let'' ''x'' (Some (Literal (NumberValue ''2'') ''2''))])
       [\<lparr>pmessage = ''Expected variable name'',
         ptoken = Some \<lparr>ttype = NUMBER, tvalue = ''1'', tline = 1, tcolumn = 5,
           tlength = 1\<rparr>\<rparr>]"
    by code_simp
  show "parse (fst (tokenize ''let x = ;'')) =
     Returned (Program [])
       [\<lparr>pmessage = ''Expected expression'',
         ptoken = Some \<lparr>ttype = SEMICOLON, tvalue = '';'', tline = 1, tcolumn = 9,
           tlength = 1\<rparr>\<rparr>]"
    by code_simp
next
  assume "checkP ty st = Ok False st"
  then show "expect ty msg st =
      Thrown ParseFailure (st\<lparr>perrors := perrors st @ [\<lparr>pmessage = msg, ptoken = peekP st\<rparr>]\<rparr>)"
    by (simp add: expect_def error_def)
next
  assume "peekP sp = Some t \<and>
    ttype t \<notin> set [NUMBER, STRING, BOOLEAN, NULL, IDENTIFIER, LBRACKET, LBRACE, LPAREN]"
  then show "parsePrimary pe m sp =
        Thrown ParseFailure
          (sp\<lparr>perrors := perrors sp @
             [\<lparr>pmessage = ''Expected expression'', ptoken = Some t\<rparr>]\<rparr>)"
    using parsePrimary_throws [of sp t pe m] by blast
next
  assume "parseStatement k ss = Thrown ParseFailure ss'"
  with recordsD [OF records_parseStatement [of k] refl, of ss]
  show "\<exists>text. perrors ss' = perrors ss @ [\<lparr>pmessage = text, ptoken = peekP ss'\<rparr>]"
    by simp
next
  assume "inRange sy \<and> eofIndex (ptokens sy) - ppos sy < n"
  then have "inRange sy" "eofIndex (ptokens sy) - ppos sy < n" by simp_all
  from synchronize_first [OF this]
  show "\<exists>q. synchronize n sy = Ok () (sy\<lparr>ppos := q\<rparr>) \<and> firstBoundary sy q"
    by blast
qed

theorem expectation_failure_recovery_witness:
  "checkP IDENTIFIER ((newParser (fst (tokenize ''let 1 let x = 2;'')))\<lparr>ppos := 1\<rparr>) =
     Ok False ((newParser (fst (tokenize ''let 1 let x = 2;'')))\<lparr>ppos := 1\<rparr>) \<and>
   expect IDENTIFIER ''Expected variable name''
       ((newParser (fst (tokenize ''let 1 let x = 2;'')))\<lparr>ppos := 1\<rparr>) =
     Thrown ParseFailure
       ((newParser (fst (tokenize ''let 1 let x = 2;'')))
          \<lparr>ppos := 1,
           perrors := [\<lparr>pmessage = ''Expected variable name'',
             ptoken = Some \<lparr>ttype = NUMBER, tvalue = ''1'', tline = 1, tcolumn = 5,
               tlength = 1\<rparr>\<rparr>]\<rparr>) \<and>
   peekP ((newParser (fst (tokenize ''let x = ;'')))\<lparr>ppos := 3\<rparr>) =
     Some \<lparr>ttype = SEMICOLON, tvalue = '';'', tline = 1, tcolumn = 9, tlength = 1\<rparr> \<and>
   parsePrimary (parseExpression 1) 1 ((newParser (fst (tokenize ''let x = ;'')))\<lparr>ppos := 3\<rparr>) =
     Thrown ParseFailure
       ((newParser (fst (tokenize ''let x = ;'')))
          \<lparr>ppos := 3,
           perrors := [\<lparr>pmessage = ''Expected expression'',
             ptoken = Some \<lparr>ttype = SEMICOLON, tvalue = '';'', tline = 1, tcolumn = 9,
               tlength = 1\<rparr>\<rparr>]\<rparr>) \<and>
   parseStatement 5 (newParser (fst (tokenize ''let x = ;''))) =
     Thrown ParseFailure
       ((newParser (fst (tokenize ''let x = ;'')))
          \<lparr>ppos := 3,
           perrors := [\<lparr>pmessage = ''Expected expression'',
             ptoken = Some \<lparr>ttype = SEMICOLON, tvalue = '';'', tline = 1, tcolumn = 9,
               tlength = 1\<rparr>\<rparr>]\<rparr>) \<and>
   inRange ((newParser (fst (tokenize ''let 1 let x = 2;'')))\<lparr>ppos := 1\<rparr>) \<and>
   synchronize 9 ((newParser (fst (tokenize ''let 1 let x = 2;'')))\<lparr>ppos := 1\<rparr>) =
     Ok () ((newParser (fst (tokenize ''let 1 let x = 2;'')))\<lparr>ppos := 2\<rparr>) \<and>
   firstBoundary ((newParser (fst (tokenize ''let 1 let x = 2;'')))\<lparr>ppos := 1\<rparr>) 2"
proof -
  define A where "A = (newParser (fst (tokenize ''let 1 let x = 2;'')))\<lparr>ppos := 1\<rparr>"
  define B where "B = (newParser (fst (tokenize ''let x = ;'')))\<lparr>ppos := 3\<rparr>"
  define C where "C = newParser (fst (tokenize ''let x = ;''))"
  define semi where
    "semi = \<lparr>ttype = SEMICOLON, tvalue = '';'', tline = 1, tcolumn = 9, tlength = 1\<rparr>"
  define B' where
    "B' = B\<lparr>perrors := [\<lparr>pmessage = ''Expected expression'', ptoken = Some semi\<rparr>]\<rparr>"
  note inst = expectation_failure_recovery [of IDENTIFIER A "''Expected variable name''" B semi
      "parseExpression 1" 1 5 C B' A 9]
  have c: "checkP IDENTIFIER A = Ok False A" unfolding A_def by code_simp
  have pa: "peekP A = Some \<lparr>ttype = NUMBER, tvalue = ''1'', tline = 1, tcolumn = 5,
      tlength = 1\<rparr>" "perrors A = []"
    unfolding A_def by code_simp+
  have pb: "peekP B = Some semi" "perrors B = []"
    "ttype semi \<notin> set [NUMBER, STRING, BOOLEAN, NULL, IDENTIFIER, LBRACKET, LBRACE, LPAREN]"
    unfolding B_def semi_def by code_simp+
  have ps: "parseStatement 5 C = Thrown ParseFailure B'"
    unfolding C_def B'_def B_def semi_def by code_simp
  have r: "inRange A" "eofIndex (ptokens A) - ppos A < 9" unfolding A_def by code_simp+
  have sy: "synchronize 9 A = Ok () (A\<lparr>ppos := 2\<rparr>)" unfolding A_def by code_simp
  note i5 = inst [THEN conjunct2, THEN conjunct2, THEN conjunct2, THEN conjunct2, THEN conjunct1]
  note i6 = inst [THEN conjunct2, THEN conjunct2, THEN conjunct2, THEN conjunct2, THEN conjunct2, THEN conjunct1]
  note i7 = inst [THEN conjunct2, THEN conjunct2, THEN conjunct2, THEN conjunct2, THEN conjunct2, THEN conjunct2, THEN conjunct1]
  note i8 = inst [THEN conjunct2, THEN conjunct2, THEN conjunct2, THEN conjunct2, THEN conjunct2, THEN conjunct2, THEN conjunct2]
  from i5 c have e: "expect IDENTIFIER ''Expected variable name'' A =
      Thrown ParseFailure
        (A\<lparr>perrors := perrors A @ [\<lparr>pmessage = ''Expected variable name'', ptoken = peekP A\<rparr>]\<rparr>)"
    by (rule mp)
  from i6 pb have p: "parsePrimary (parseExpression 1) 1 B =
      Thrown ParseFailure
        (B\<lparr>perrors := perrors B @ [\<lparr>pmessage = ''Expected expression'', ptoken = Some semi\<rparr>]\<rparr>)"
    by blast
  from i7 ps have "\<exists>text. perrors B' = perrors C @ [\<lparr>pmessage = text, ptoken = peekP B'\<rparr>]"
    by (rule mp)
  from i8 r obtain q where q: "synchronize 9 A = Ok () (A\<lparr>ppos := q\<rparr>)" "firstBoundary A q"
    by blast
  from q (1) sy have "A\<lparr>ppos := q\<rparr> = A\<lparr>ppos := 2\<rparr>" by simp
  then have "ppos (A\<lparr>ppos := q\<rparr>) = ppos (A\<lparr>ppos := 2\<rparr>)" by (rule arg_cong)
  then have "q = 2" by simp
  with q have fb: "firstBoundary A 2" by simp
  have "checkP IDENTIFIER A = Ok False A \<and>
    expect IDENTIFIER ''Expected variable name'' A =
      Thrown ParseFailure
        (A\<lparr>perrors := [\<lparr>pmessage = ''Expected variable name'',
             ptoken = Some \<lparr>ttype = NUMBER, tvalue = ''1'', tline = 1, tcolumn = 5,
               tlength = 1\<rparr>\<rparr>]\<rparr>) \<and>
    peekP B = Some semi \<and>
    parsePrimary (parseExpression 1) 1 B = Thrown ParseFailure B' \<and>
    parseStatement 5 C = Thrown ParseFailure B' \<and>
    inRange A \<and> synchronize 9 A = Ok () (A\<lparr>ppos := 2\<rparr>) \<and> firstBoundary A 2"
    using c e pa pb p ps r sy fb by (simp add: B'_def)
  then show ?thesis
    unfolding A_def B_def B'_def C_def semi_def by simp
qed

section \<open>Template statements without text parts\<close>

text \<open>
  \<open>onlyInterpolations s\<close>: every template statement in \<open>s\<close>, at any depth, has
  expressions as its parts and no text.
\<close>

fun isInterpolation :: "TemplatePart \<Rightarrow> bool" where
  "isInterpolation (ExpressionPart e) = True"
| "isInterpolation (TextPart s) = False"

fun onlyInterpolations :: "StatementNode \<Rightarrow> bool" where
  "onlyInterpolations (TemplateStatement parts) = list_all isInterpolation parts"
| "onlyInterpolations (FunctionDeclaration name params body) = list_all onlyInterpolations body"
| "onlyInterpolations (IfStatement test consequent alternate) =
     (list_all onlyInterpolations consequent \<and>
      (case alternate of None \<Rightarrow> True | Some alt \<Rightarrow> list_all onlyInterpolations alt))"
| "onlyInterpolations (ForStatement variable iterable body) = list_all onlyInterpolations body"
| "onlyInterpolations (ExportStatement declaration) = onlyInterpolations declaration"
| "onlyInterpolations (VariableDeclaration kind name init) = True"
| "onlyInterpolations (ExpressionStatement e) = True"
| "onlyInterpolations (ReturnStatement argument) = True"
| "onlyInterpolations (ImportStatement specifiers path) = True"

lemma noTemplateText_nth:
  "noTemplateText toks \<Longrightarrow> i < eofIndex toks \<Longrightarrow> ttype (toks ! i) \<noteq> TEMPLATE_TEXT"
proof -
  assume a: "noTemplateText toks" "i < eofIndex toks"
  have "eofIndex toks \<le> length toks" by (simp add: eofIndex_def length_takeWhile_le)
  with a (2) have "toks ! i \<in> set toks" by simp
  then have "ttype (toks ! i) \<in> ttype ` set toks" by (rule imageI)
  with a (1) show ?thesis unfolding noTemplateText_def by metis
qed

definition cleanSpec :: "Token list \<Rightarrow> nat \<Rightarrow> StatementNode parser \<Rightarrow> bool" where
  "cleanSpec toks B ps \<longleftrightarrow>
     (\<forall>st lo p. ptokens st = toks \<and> inRange st \<and> eofIndex toks - ppos st < B \<and>
         lo \<le> ppos st \<and> p \<le> ppos st \<longrightarrow>
        good toks lo (\<lambda>v st'. p < ppos st' \<and> onlyInterpolations v) (ps st))"

lemma cleanSpec_good:
  assumes "cleanSpec toks B ps" "ptokens st = toks" "inRange st" "eofIndex toks - ppos st < B"
    "lo \<le> ppos st" "p \<le> ppos st"
  shows "good toks lo (\<lambda>v st'. p < ppos st' \<and> onlyInterpolations v) (ps st)"
  using assms unfolding cleanSpec_def by blast

lemma cleanSpec_call:
  assumes "cleanSpec toks B ps" "ptokens st = toks" "inRange st" "eofIndex toks - ppos st < B"
    "lo \<le> ppos st"
    and "\<And>v st'. ptokens st' = toks \<Longrightarrow> inRange st' \<Longrightarrow> ppos st < ppos st' \<Longrightarrow>
      onlyInterpolations v \<Longrightarrow> good toks lo R (k v st')"
  shows "good toks lo R (andThen (ps st) k)"
  by (rule good_andThen [OF cleanSpec_good [where p = "ppos st"]]) (use assms in auto)

lemma parseBlock_clean:
  assumes ps: "cleanSpec toks B ps"
  shows "ptokens st = toks \<Longrightarrow> inRange st \<Longrightarrow> eofIndex toks - ppos st < B \<Longrightarrow>
     eofIndex toks - ppos st < n \<Longrightarrow> lo \<le> ppos st \<Longrightarrow> p < ppos st \<Longrightarrow>
     list_all onlyInterpolations body \<Longrightarrow>
     good toks lo (\<lambda>v st'. p < ppos st' \<and> list_all onlyInterpolations v)
       (parseBlock ps n body st)"
proof (induction n arbitrary: st body)
  case 0
  then show ?case by simp
next
  case (Suc n)
  show ?case
    apply (insert Suc.prems inRange_length [OF Suc.prems (2)])
    by ((simp add: prims | rule cleanSpec_call [OF ps] Suc.IH | intro conjI impI |
        (simp add: inRange_def; linarith))+)
qed

lemma parseBlock_clean_call:
  assumes "cleanSpec toks B ps" "ptokens st = toks" "inRange st" "eofIndex toks - ppos st < B"
    "eofIndex toks - ppos st < n" "lo \<le> ppos st" "0 < ppos st"
    and "\<And>v st'. ptokens st' = toks \<Longrightarrow> inRange st' \<Longrightarrow> ppos st \<le> ppos st' \<Longrightarrow>
      list_all onlyInterpolations v \<Longrightarrow> good toks lo R (k v st')"
  shows "good toks lo R (andThen (parseBlock ps n [] st) k)"
  by (rule good_andThen [OF parseBlock_clean [where p = "ppos st - 1"]]) (use assms in auto)

lemma parseTemplateLoop_clean:
  assumes nt: "noTemplateText toks"
  shows "ptokens st = toks \<Longrightarrow> inRange st \<Longrightarrow> eofIndex toks - ppos st < n \<Longrightarrow>
   lo \<le> ppos st \<Longrightarrow> p < ppos st \<Longrightarrow> list_all isInterpolation parts \<Longrightarrow>
   good toks lo (\<lambda>v st'. p < ppos st' \<and> list_all isInterpolation v)
     (parseTemplateLoop n parts st)"
proof (induction n arbitrary: st parts)
  case 0
  then show ?case by simp
next
  case (Suc n)
  show ?case
    apply (insert Suc.prems inRange_length [OF Suc.prems (2)])
    by ((simp add: prims noTemplateText_nth [OF nt] | rule parseExpression_call Suc.IH |
        intro conjI impI | (simp add: inRange_def; linarith))+)
qed

lemma parseTemplateLoop_clean_call:
  assumes "noTemplateText toks" "ptokens st = toks" "inRange st" "eofIndex toks - ppos st < n"
    "lo \<le> ppos st" "0 < ppos st"
    and "\<And>v st'. ptokens st' = toks \<Longrightarrow> inRange st' \<Longrightarrow> ppos st \<le> ppos st' \<Longrightarrow>
      list_all isInterpolation v \<Longrightarrow> good toks lo R (k v st')"
  shows "good toks lo R (andThen (parseTemplateLoop n [] st) k)"
  by (rule good_andThen [OF parseTemplateLoop_clean [where p = "ppos st - 1"]])
     (use assms in auto)

lemma parseVariableDeclaration_clean:
  assumes "ptokens st = toks" "inRange st" "eofIndex toks - ppos st < n"
    "lo \<le> ppos st" "p \<le> ppos st" "ppos st < eofIndex toks"
  shows "good toks lo (\<lambda>v st'. p < ppos st' \<and> onlyInterpolations v) (parseVariableDeclaration n st)"
  apply (insert assms  inRange_length [OF assms (2)])
  by ((simp add: prims parseVariableDeclaration_def | rule parseExpression_call | intro conjI impI |
      (simp add: inRange_def; linarith))+)

lemma parseFunctionDeclaration_clean:
  assumes ps: "cleanSpec toks B ps"
    and "ptokens st = toks" "inRange st" "eofIndex toks - ppos st \<le> B"
    "eofIndex toks - ppos st < n"
    "lo \<le> ppos st" "p \<le> ppos st" "ppos st < eofIndex toks"
  shows "good toks lo (\<lambda>v st'. p < ppos st' \<and> onlyInterpolations v) (parseFunctionDeclaration ps n st)"
  apply (insert assms (2-) inRange_length [OF assms (3)])
  by ((simp add: prims parseFunctionDeclaration_def | rule identifierList_call parseBlock_clean_call [OF ps] | intro conjI impI |
      (simp add: inRange_def; linarith))+)

lemma parseReturnStatement_clean:
  assumes "ptokens st = toks" "inRange st" "eofIndex toks - ppos st < n"
    "lo \<le> ppos st" "p \<le> ppos st" "ppos st < eofIndex toks"
  shows "good toks lo (\<lambda>v st'. p < ppos st' \<and> onlyInterpolations v) (parseReturnStatement n st)"
  apply (insert assms  inRange_length [OF assms (2)])
  by ((simp add: prims parseReturnStatement_def | rule parseExpression_call | intro conjI impI |
      (simp add: inRange_def; linarith))+)

lemma parseIfStatement_clean:
  assumes ps: "cleanSpec toks B ps"
    and "ptokens st = toks" "inRange st" "eofIndex toks - ppos st \<le> B"
    "eofIndex toks - ppos st < n"
    "lo \<le> ppos st" "p \<le> ppos st" "ppos st < eofIndex toks"
  shows "good toks lo (\<lambda>v st'. p < ppos st' \<and> onlyInterpolations v) (parseIfStatement ps n st)"
  apply (insert assms (2-) inRange_length [OF assms (3)])
  by ((simp add: prims parseIfStatement_def | rule parseExpression_call parseBlock_clean_call [OF ps] | intro conjI impI |
      (simp add: inRange_def; linarith))+)

lemma parseForStatement_clean:
  assumes ps: "cleanSpec toks B ps"
    and "ptokens st = toks" "inRange st" "eofIndex toks - ppos st \<le> B"
    "eofIndex toks - ppos st < n"
    "lo \<le> ppos st" "p \<le> ppos st" "ppos st < eofIndex toks"
  shows "good toks lo (\<lambda>v st'. p < ppos st' \<and> onlyInterpolations v) (parseForStatement ps n st)"
  apply (insert assms (2-) inRange_length [OF assms (3)])
  by ((simp add: prims parseForStatement_def | rule parseExpression_call parseBlock_clean_call [OF ps] | intro conjI impI |
      (simp add: inRange_def; linarith))+)

lemma parseImportStatement_clean:
  assumes "ptokens st = toks" "inRange st" "eofIndex toks - ppos st < n"
    "lo \<le> ppos st" "p \<le> ppos st" "ppos st < eofIndex toks"
  shows "good toks lo (\<lambda>v st'. p < ppos st' \<and> onlyInterpolations v) (parseImportStatement n st)"
  apply (insert assms  inRange_length [OF assms (2)])
  by ((simp add: prims parseImportStatement_def | rule identifierList_call | intro conjI impI |
      (simp add: inRange_def; linarith))+)

lemma parseExportStatement_clean:
  assumes ps: "cleanSpec toks B ps"
    and "ptokens st = toks" "inRange st" "eofIndex toks - ppos st \<le> B"
    "lo \<le> ppos st" "p \<le> ppos st" "ppos st < eofIndex toks"
  shows "good toks lo (\<lambda>v st'. p < ppos st' \<and> onlyInterpolations v)
    (parseExportStatement ps st)"
  apply (insert assms (2-) inRange_length [OF assms (3)])
  by ((simp add: prims parseExportStatement_def | rule cleanSpec_call [OF ps] | intro conjI impI |
      (simp add: inRange_def; linarith))+)

lemma parseTemplateStatement_clean:
  assumes nt: "noTemplateText toks" and
    "ptokens st = toks" "inRange st" "eofIndex toks - ppos st < n"
    "lo \<le> ppos st" "p \<le> ppos st" "ppos st < eofIndex toks"
  shows "good toks lo (\<lambda>v st'. p < ppos st' \<and> onlyInterpolations v) (parseTemplateStatement n st)"
  apply (insert assms (2-) inRange_length [OF assms (3)])
  by ((simp add: prims parseTemplateStatement_def | rule parseTemplateLoop_clean_call [OF nt] | intro conjI impI |
      (simp add: inRange_def; linarith))+)

lemma parseExpressionStatement_clean:
  assumes "ptokens st = toks" "inRange st" "eofIndex toks - ppos st < n"
    "lo \<le> ppos st" "p \<le> ppos st"
  shows "good toks lo (\<lambda>v st'. p < ppos st' \<and> onlyInterpolations v)
    (parseExpressionStatement n st)"
  apply (insert assms inRange_length [OF assms (2)])
  by ((simp add: prims parseExpressionStatement_def | rule parseExpression_call | intro conjI impI |
      (simp add: inRange_def; linarith))+)

lemma statement_clean:
  assumes nt: "noTemplateText toks" and ps: "cleanSpec toks B ps"
    and "ptokens st = toks" "inRange st" "eofIndex toks - ppos st \<le> B"
    "eofIndex toks - ppos st < n" "lo \<le> ppos st" "p \<le> ppos st"
  shows "good toks lo (\<lambda>v st'. p < ppos st' \<and> onlyInterpolations v) (statement ps n st)"
proof (cases "ttype (toks ! ppos st) = KEYWORD")
  case False
  with assms (3-) show ?thesis
    by (simp add: statement_def peekP_inRange parseExpressionStatement_clean)
next
  case True
  with assms (3,4) have "ppos st < eofIndex toks"
    using inRange_atEnd [of st] by auto
  with True assms (3-) show ?thesis
    by (simp add: statement_def peekP_inRange parseExpressionStatement_clean
        parseVariableDeclaration_clean parseFunctionDeclaration_clean [OF ps]
        parseReturnStatement_clean parseIfStatement_clean [OF ps]
        parseForStatement_clean [OF ps] parseImportStatement_clean
        parseExportStatement_clean [OF ps] parseTemplateStatement_clean [OF nt])
qed

lemma parseStatement_cleanSpec:
  assumes nt: "noTemplateText toks"
  shows "cleanSpec toks n (parseStatement n)"
proof (induction n)
  case 0
  show ?case by (simp add: cleanSpec_def)
next
  case (Suc n)
  show ?case
    unfolding cleanSpec_def
  proof (intro allI impI, elim conjE)
    fix st lo p
    assume "ptokens st = toks" "inRange st" "eofIndex toks - ppos st < Suc n" "lo \<le> ppos st"
      "p \<le> ppos st"
    then show "good toks lo (\<lambda>v st'. p < ppos st' \<and> onlyInterpolations v)
        (parseStatement (Suc n) st)"
      by (simp add: statement_clean [OF nt Suc])
  qed
qed

lemma parseLoop_clean:
  assumes nt: "noTemplateText toks"
  shows "ptokens st = toks \<Longrightarrow> inRange st \<Longrightarrow> eofIndex toks - ppos st < fuel \<Longrightarrow>
   eofIndex toks - ppos st < n \<Longrightarrow> list_all onlyInterpolations body \<Longrightarrow>
   \<exists>body' st'. parseLoop fuel n body st = Ok body' st' \<and> list_all onlyInterpolations body'"
proof (induction n arbitrary: st body)
  case 0
  then show ?case by simp
next
  case (Suc n)
  show ?case
  proof (cases "ppos st < eofIndex toks")
    case False
    with Suc.prems show ?thesis
      by (auto simp: prims inRange_def)
  next
    case True
    have g: "good toks (ppos st) (\<lambda>v st'. ppos st < ppos st' \<and> onlyInterpolations v)
        (parseStatement fuel st)"
      using Suc.prems by (intro cleanSpec_good [OF parseStatement_cleanSpec [OF nt]]) auto
    show ?thesis
    proof (cases "parseStatement fuel st")
      case (Ok stmt st1)
      with g have st1: "ptokens st1 = toks" "inRange st1" "ppos st < ppos st1"
        "onlyInterpolations stmt" by simp_all
      have "parseLoop fuel (Suc n) body st = parseLoop fuel n (body @ [stmt]) st1"
        using Suc.prems True Ok by (simp add: prims)
      moreover have "\<exists>body' st'. parseLoop fuel n (body @ [stmt]) st1 = Ok body' st' \<and>
          list_all onlyInterpolations body'"
        using st1 Suc.prems True by (intro Suc.IH) auto
      ultimately show ?thesis by simp
    next
      case (Thrown e st1)
      with g have st1: "ptokens st1 = toks" "inRange st1" "ppos st \<le> ppos st1" by simp_all
      have "eofIndex toks - ppos st1 < fuel" using Suc.prems (3) st1 (3) by linarith
      from synchronize_good [OF st1 (1,2) this] obtain st2 where
        st2: "synchronize fuel st1 = Ok () st2" "ptokens st2 = toks" "inRange st2"
          "ppos st1 \<le> ppos st2" "ppos st1 < eofIndex toks \<longrightarrow> ppos st1 < ppos st2"
        by blast
      have "parseLoop fuel (Suc n) body st = parseLoop fuel n body st2"
        using Suc.prems True Thrown st2 by (simp add: prims)
      moreover have "\<exists>body' st'. parseLoop fuel n body st2 = Ok body' st' \<and>
          list_all onlyInterpolations body'"
        using st1 st2 Suc.prems True by (intro Suc.IH) (auto simp: inRange_def)
      ultimately show ?thesis by simp
    next
      case OutOfFuel
      with g show ?thesis by simp
    qed
  qed
qed

text \<open>
  Claim C10. For every input string, no token of the lexer has kind \<open>TEMPLATE_TEXT\<close>;
  and the parser, run on these tokens, returns a program in which every template
  statement, at any depth, has only expressions as its parts.
\<close>

theorem no_template_text:
  "noTemplateText (fst (tokenize src)) \<and>
   (\<exists>body errs. parse (fst (tokenize src)) = Returned (Program body) errs \<and>
      list_all onlyInterpolations body)"
proof
  show nt: "noTemplateText (fst (tokenize src))" by (rule noTemplateText_tokenize)
  let ?toks = "fst (tokenize src)"
  let ?st = "newParser ?toks"
  let ?fuel = "Suc (length (ptokens ?st))"
  have r: "inRange ?st"
    using tokenize_last_EOF [of src] by (intro newParser_inRange) auto
  then have f: "eofIndex (ptokens ?st) - ppos ?st < ?fuel"
    unfolding inRange_def by linarith
  have "noTemplateText (ptokens ?st)"
    using nt by (auto simp: noTemplateText_def newParser_def)
  from parseLoop_clean [OF this refl r f f, of "[]"]
  obtain body st' where "parseLoop ?fuel ?fuel [] ?st = Ok body st'"
    "list_all onlyInterpolations body" by auto
  then show "\<exists>body errs. parse ?toks = Returned (Program body) errs \<and>
      list_all onlyInterpolations body"
    by (simp add: parse_def Let_def)
qed

section \<open>Precedence and associativity\<close>

text \<open>
  The bounds of the model do not decide what a method returns: \<open>below r r'\<close> says that
  the result \<open>r\<close> is \<open>OutOfFuel\<close> or is \<open>r'\<close>, and every method of the expression ladder
  run with a smaller bound is below itself run with a larger one.
\<close>

definition below :: "'a Result \<Rightarrow> 'a Result \<Rightarrow> bool" where
  "below r r' \<longleftrightarrow> r = OutOfFuel \<or> r' = r"

lemma below_refl: "below r r"
  by (simp add: below_def)

lemma below_OutOfFuel [simp]: "below OutOfFuel r"
  by (simp add: below_def)

lemma below_andThen:
  assumes "below m m'" and "\<And>v st. below (k v st) (k' v st)"
  shows "below (andThen m k) (andThen m' k')"
  using assms by (cases m) (auto simp: below_def)

lemma below_if:
  "(c \<Longrightarrow> below a a') \<Longrightarrow> (\<not> c \<Longrightarrow> below b b') \<Longrightarrow>
   below (if c then a else b) (if c then a' else b')"
  by simp

lemma below_trans: "below a b \<Longrightarrow> below b c \<Longrightarrow> below a c"
  by (auto simp: below_def)

lemma below_le:
  assumes "\<And>n. below (f n) (f (Suc n))"
  shows "n \<le> m \<Longrightarrow> below (f n) (f m)"
proof (induction m)
  case 0
  then show ?case by (simp add: below_refl)
next
  case (Suc m)
  show ?case
  proof (cases "n = Suc m")
    case True
    then show ?thesis by (simp add: below_refl)
  next
    case False
    with Suc.prems have "n \<le> m" by simp
    from below_trans [OF Suc.IH [OF this] assms] show ?thesis .
  qed
qed

lemma below_Ok: "below r r' \<Longrightarrow> r = Ok v st \<Longrightarrow> r' = Ok v st"
  by (auto simp: below_def)

lemmas below_intros = below_refl below_andThen below_if

lemma expressionList_below:
  "below (expressionList pe n acc st) (expressionList pe (Suc n) acc st)"
proof (induction n arbitrary: acc st)
  case (Suc n)
  show ?case
    apply (subst expressionList.simps (2) [of pe "Suc n"])
    apply (subst expressionList.simps (2) [of pe n])
    by (intro below_intros Suc.IH)
qed simp

lemma propertyList_below:
  "below (propertyList pe n acc st) (propertyList pe (Suc n) acc st)"
proof (induction n arbitrary: acc st)
  case (Suc n)
  show ?case
    apply (subst propertyList.simps (2) [of pe "Suc n"])
    apply (subst propertyList.simps (2) [of pe n])
    by (intro below_intros Suc.IH)
qed simp

lemma parsePrimary_below: "below (parsePrimary pe n st) (parsePrimary pe (Suc n) st)"
  unfolding parsePrimary_def
  by (intro below_intros expressionList_below propertyList_below)

lemma parseCallLoop_below:
  "below (parseCallLoop pe n expr st) (parseCallLoop pe (Suc n) expr st)"
proof (induction n arbitrary: expr st)
  case (Suc n)
  show ?case
    apply (subst parseCallLoop.simps (2) [of pe "Suc n"])
    apply (subst parseCallLoop.simps (2) [of pe n])
    by (intro below_intros expressionList_below Suc.IH)
qed simp

lemma parseCall_below: "below (parseCall pe n st) (parseCall pe (Suc n) st)"
  unfolding parseCall_def
  by (intro below_intros parsePrimary_below parseCallLoop_below)

lemma parseUnary_below: "below (parseUnary pe n st) (parseUnary pe (Suc n) st)"
proof (induction n arbitrary: st)
  case (Suc n)
  show ?case
    apply (subst parseUnary.simps (2) [of pe "Suc n"])
    apply (subst parseUnary.simps (2) [of pe n])
    by (intro below_intros parseCall_below Suc.IH)
qed simp

lemma parseFactorLoop_below:
  "below (parseFactorLoop pe n left st) (parseFactorLoop pe (Suc n) left st)"
proof (induction n arbitrary: left st)
  case (Suc n)
  show ?case
    apply (subst parseFactorLoop.simps (2) [of pe "Suc n"])
    apply (subst parseFactorLoop.simps (2) [of pe n])
    by (intro below_intros parseUnary_below Suc.IH)
qed simp

lemma parseFactor_below: "below (parseFactor pe n st) (parseFactor pe (Suc n) st)"
  unfolding parseFactor_def
  by (intro below_intros parseUnary_below parseFactorLoop_below)

lemma parseTermLoop_below:
  "below (parseTermLoop pe n left st) (parseTermLoop pe (Suc n) left st)"
proof (induction n arbitrary: left st)
  case (Suc n)
  show ?case
    apply (subst parseTermLoop.simps (2) [of pe "Suc n"])
    apply (subst parseTermLoop.simps (2) [of pe n])
    by (intro below_intros parseFactor_below Suc.IH)
qed simp

lemma parseTerm_below: "below (parseTerm pe n st) (parseTerm pe (Suc n) st)"
  unfolding parseTerm_def
  by (intro below_intros parseFactor_below parseTermLoop_below)

lemma parseComparison_below: "below (parseComparison pe n st) (parseComparison pe (Suc n) st)"
  unfolding parseComparison_def by (rule parseTerm_below)

lemma parseEqualityLoop_below:
  "below (parseEqualityLoop pe n left st) (parseEqualityLoop pe (Suc n) left st)"
proof (induction n arbitrary: left st)
  case (Suc n)
  show ?case
    apply (subst parseEqualityLoop.simps (2) [of pe "Suc n"])
    apply (subst parseEqualityLoop.simps (2) [of pe n])
    by (intro below_intros parseComparison_below Suc.IH)
qed simp

lemma parseEquality_below: "below (parseEquality pe n st) (parseEquality pe (Suc n) st)"
  unfolding parseEquality_def
  by (intro below_intros parseComparison_below parseEqualityLoop_below)

lemma parseAndLoop_below:
  "below (parseAndLoop pe n left st) (parseAndLoop pe (Suc n) left st)"
proof (induction n arbitrary: left st)
  case (Suc n)
  show ?case
    apply (subst parseAndLoop.simps (2) [of pe "Suc n"])
    apply (subst parseAndLoop.simps (2) [of pe n])
    by (intro below_intros parseEquality_below Suc.IH)
qed simp

lemma parseAnd_below: "below (parseAnd pe n st) (parseAnd pe (Suc n) st)"
  unfolding parseAnd_def
  by (intro below_intros parseEquality_below parseAndLoop_below)

lemma parseOrLoop_below:
  "below (parseOrLoop pe n left st) (parseOrLoop pe (Suc n) left st)"
proof (induction n arbitrary: left st)
  case (Suc n)
  show ?case
    apply (subst parseOrLoop.simps (2) [of pe "Suc n"])
    apply (subst parseOrLoop.simps (2) [of pe n])
    by (intro below_intros parseAnd_below Suc.IH)
qed simp

lemma parseOr_below: "below (parseOr pe n st) (parseOr pe (Suc n) st)"
  unfolding parseOr_def
  by (intro below_intros parseAnd_below parseOrLoop_below)

lemma parsePipeLoop_below:
  "below (parsePipeLoop pe n left st) (parsePipeLoop pe (Suc n) left st)"
proof (induction n arbitrary: left st)
  case (Suc n)
  show ?case
    apply (subst parsePipeLoop.simps (2) [of pe "Suc n"])
    apply (subst parsePipeLoop.simps (2) [of pe n])
    by (intro below_intros parseOr_below Suc.IH)
qed simp

lemma parsePipe_below: "below (parsePipe pe n st) (parsePipe pe (Suc n) st)"
  unfolding parsePipe_def
  by (intro below_intros parseOr_below parsePipeLoop_below)

text \<open>
  \<open>returns p st v st'\<close>: the method \<open>p\<close>, called in the state \<open>st\<close>, returns \<open>v\<close> and leaves
  the parser in the state \<open>st'\<close> (with some bound, and then with every larger one).

  \<open>chain operand ops st rest st'\<close>: from the state \<open>st\<close> on, the tokens are operators of
  the kinds \<open>ops\<close>, each followed by an operand that \<open>operand\<close> returns; \<open>rest\<close> lists the
  operator tokens with their operands, and the chain ends in \<open>st'\<close>, at a token that is
  not one of these operators.

  \<open>foldsLeft level operand ops node\<close>: the method \<open>level\<close> returns exactly the nodes built
  from a first operand and such a chain, nested to the left: the node of the first
  operator is the left operand of the node of the second, and so on.
\<close>

definition returns :: "(nat \<Rightarrow> 'a parser) \<Rightarrow> Parser \<Rightarrow> 'a \<Rightarrow> Parser \<Rightarrow> bool" where
  "returns p st v st' \<longleftrightarrow> (\<exists>n. p n st = Ok v st')"

fun chain ::
  "(Parser \<Rightarrow> ExpressionNode \<Rightarrow> Parser \<Rightarrow> bool) \<Rightarrow> TokenType list \<Rightarrow> Parser \<Rightarrow>
   (Token \<times> ExpressionNode) list \<Rightarrow> Parser \<Rightarrow> bool" where
  "chain operand ops st [] st' \<longleftrightarrow>
     st' = st \<and> (\<exists>t. peekP st = Some t \<and> ttype t \<notin> set ops)"
| "chain operand ops st ((t, right) # rest) st' \<longleftrightarrow>
     peekP st = Some t \<and> ttype t \<in> set ops \<and>
     (\<exists>st1. operand (st\<lparr>ppos := Suc (ppos st)\<rparr>) right st1 \<and> chain operand ops st1 rest st')"

definition foldsLeft ::
  "(nat \<Rightarrow> ExpressionNode parser) \<Rightarrow> (nat \<Rightarrow> ExpressionNode parser) \<Rightarrow> TokenType list \<Rightarrow>
   (Token \<Rightarrow> ExpressionNode \<Rightarrow> ExpressionNode \<Rightarrow> ExpressionNode) \<Rightarrow> bool" where
  "foldsLeft level operand ops node \<longleftrightarrow>
     (\<forall>st e st'. returns level st e st' \<longleftrightarrow>
        (\<exists>first st0 rest. returns operand st first st0 \<and>
           chain (returns operand) ops st0 rest st' \<and>
           e = foldl (\<lambda>left (t, right). node t left right) first rest))"

lemma returns_le:
  assumes "\<And>n. below (p n st) (p (Suc n) st)" and "p n st = Ok v st'" and "n \<le> m"
  shows "p m st = Ok v st'"
  using below_le [of "\<lambda>n. p n st", OF assms (1) assms (3)] assms (2) by (rule below_Ok)

lemma leftLoop_chain:
  fixes L :: "nat \<Rightarrow> ExpressionNode \<Rightarrow> ExpressionNode parser"
    and P :: "nat \<Rightarrow> ExpressionNode parser"
  assumes zero: "\<And>left st. L 0 left st = OutOfFuel"
    and step: "\<And>n left st. L (Suc n) left st =
      (case peekP st of
         None \<Rightarrow> Thrown TypeError st
       | Some t \<Rightarrow>
           if ttype t \<in> set ops then
             andThen (P n (st\<lparr>ppos := Suc (ppos st)\<rparr>))
               (\<lambda>right st'. L n (node t left right) st')
           else Ok left st)"
    and monoP: "\<And>n st. below (P n st) (P (Suc n) st)"
    and monoL: "\<And>n left st. below (L n left st) (L (Suc n) left st)"
  shows "(\<exists>n. L n left st = Ok e st') \<longleftrightarrow>
     (\<exists>rest. chain (returns P) ops st rest st' \<and>
        e = foldl (\<lambda>left (t, right). node t left right) left rest)"
proof
  assume "\<exists>n. L n left st = Ok e st'"
  then obtain n where "L n left st = Ok e st'" ..
  then show "\<exists>rest. chain (returns P) ops st rest st' \<and>
        e = foldl (\<lambda>left (t, right). node t left right) left rest"
  proof (induction n arbitrary: left st)
    case 0
    then show ?case by (simp add: zero)
  next
    case (Suc n)
    from Suc.prems obtain t where t: "peekP st = Some t"
      by (cases "peekP st") (simp_all add: step)
    show ?case
    proof (cases "ttype t \<in> set ops")
      case False
      with Suc.prems t have "e = left" "st' = st" by (simp_all add: step)
      with t False show ?thesis by (intro exI [of _ "[]"]) simp
    next
      case True
      let ?st1 = "st\<lparr>ppos := Suc (ppos st)\<rparr>"
      from Suc.prems t True obtain right st2 where
        r: "P n ?st1 = Ok right st2" and l: "L n (node t left right) st2 = Ok e st'"
        by (cases "P n ?st1") (simp_all add: step)
      from Suc.IH [OF l] obtain rest where
        m: "chain (returns P) ops st2 rest st'"
          "e = foldl (\<lambda>left (t, right). node t left right) (node t left right) rest"
        by blast
      from r have "returns P ?st1 right st2" unfolding returns_def by blast
      with t True m show ?thesis
        by (intro exI [of _ "(t, right) # rest"]) auto
    qed
  qed
next
  assume "\<exists>rest. chain (returns P) ops st rest st' \<and>
        e = foldl (\<lambda>left (t, right). node t left right) left rest"
  then obtain rest where "chain (returns P) ops st rest st'"
    "e = foldl (\<lambda>left (t, right). node t left right) left rest" by blast
  then show "\<exists>n. L n left st = Ok e st'"
  proof (induction rest arbitrary: left st e)
    case Nil
    then have "L (Suc 0) left st = Ok e st'" by (auto simp: step)
    then show ?case ..
  next
    case (Cons a rest)
    obtain t right where a: "a = (t, right)" by (cases a)
    let ?st1 = "st\<lparr>ppos := Suc (ppos st)\<rparr>"
    from Cons.prems (1) a have t: "peekP st = Some t" "ttype t \<in> set ops" and
      "\<exists>st2. returns P ?st1 right st2 \<and> chain (returns P) ops st2 rest st'"
      by simp_all
    then obtain st2 where "returns P ?st1 right st2" and
      c: "chain (returns P) ops st2 rest st'" by blast
    then obtain n1 where r: "P n1 ?st1 = Ok right st2" unfolding returns_def by blast
    from Cons.prems (2) a
    have "e = foldl (\<lambda>left (t, right). node t left right) (node t left right) rest" by simp
    from Cons.IH [OF c this] obtain n2 where l: "L n2 (node t left right) st2 = Ok e st'" ..
    let ?n = "max n1 n2"
    have "P ?n ?st1 = Ok right st2"
      by (rule returns_le [of P, OF monoP r]) simp
    moreover have "L ?n (node t left right) st2 = Ok e st'"
      by (rule returns_le [of "\<lambda>n. L n (node t left right)", OF monoL l]) simp
    ultimately have "L (Suc ?n) left st = Ok e st'"
      using t by (simp add: step)
    then show ?case ..
  qed
qed

lemma level_foldsLeft:
  fixes L :: "nat \<Rightarrow> ExpressionNode \<Rightarrow> ExpressionNode parser"
    and P X :: "nat \<Rightarrow> ExpressionNode parser"
  assumes level: "\<And>n st. X n st = andThen (P n st) (\<lambda>left st'. L n left st')"
    and zero: "\<And>left st. L 0 left st = OutOfFuel"
    and step: "\<And>n left st. L (Suc n) left st =
      (case peekP st of
         None \<Rightarrow> Thrown TypeError st
       | Some t \<Rightarrow>
           if ttype t \<in> set ops then
             andThen (P n (st\<lparr>ppos := Suc (ppos st)\<rparr>))
               (\<lambda>right st'. L n (node t left right) st')
           else Ok left st)"
    and monoP: "\<And>n st. below (P n st) (P (Suc n) st)"
    and monoL: "\<And>n left st. below (L n left st) (L (Suc n) left st)"
  shows "foldsLeft X P ops node"
  unfolding foldsLeft_def
proof (intro allI)
  fix st e st'
  note loop = leftLoop_chain [of L ops P node, OF zero step monoP monoL]
  have "returns X st e st' \<longleftrightarrow> (\<exists>first st0. returns P st first st0 \<and> (\<exists>n. L n first st0 = Ok e st'))"
  proof
    assume "returns X st e st'"
    then obtain n where n: "andThen (P n st) (\<lambda>left st'. L n left st') = Ok e st'"
      unfolding returns_def level ..
    then obtain first st0 where "P n st = Ok first st0" "L n first st0 = Ok e st'"
      by (cases "P n st") simp_all
    then show "\<exists>first st0. returns P st first st0 \<and> (\<exists>n. L n first st0 = Ok e st')"
      unfolding returns_def by blast
  next
    assume "\<exists>first st0. returns P st first st0 \<and> (\<exists>n. L n first st0 = Ok e st')"
    then obtain first st0 n1 n2 where r: "P n1 st = Ok first st0" and l: "L n2 first st0 = Ok e st'"
      unfolding returns_def by blast
    let ?n = "max n1 n2"
    have "P ?n st = Ok first st0"
      by (rule returns_le [of P, OF monoP r]) simp
    moreover have "L ?n first st0 = Ok e st'"
      by (rule returns_le [of "\<lambda>n. L n first", OF monoL l]) simp
    ultimately have "X ?n st = Ok e st'" by (simp add: level)
    then show "returns X st e st'" unfolding returns_def ..
  qed
  then show "returns X st e st' \<longleftrightarrow>
     (\<exists>first st0 rest. returns P st first st0 \<and> chain (returns P) ops st0 rest st' \<and>
        e = foldl (\<lambda>left (t, right). node t left right) first rest)"
    unfolding loop by blast
qed

lemma parseFactorLoop_step:
  "parseFactorLoop pe (Suc n) left st =
     (case peekP st of
        None \<Rightarrow> Thrown TypeError st
      | Some t \<Rightarrow>
          if ttype t \<in> set [MULTIPLY, DIVIDE, MODULO] then
            andThen (parseUnary pe n (st\<lparr>ppos := Suc (ppos st)\<rparr>))
              (\<lambda>right st'. parseFactorLoop pe n (BinaryExpression (tvalue t) left right) st')
          else Ok left st)"
  by (cases "peekP st") (auto simp: matchP_peek previousValue_peek orElse_def)

lemma parseTermLoop_step:
  "parseTermLoop pe (Suc n) left st =
     (case peekP st of
        None \<Rightarrow> Thrown TypeError st
      | Some t \<Rightarrow>
          if ttype t \<in> set [PLUS, MINUS] then
            andThen (parseFactor pe n (st\<lparr>ppos := Suc (ppos st)\<rparr>))
              (\<lambda>right st'. parseTermLoop pe n (BinaryExpression (tvalue t) left right) st')
          else Ok left st)"
  by (cases "peekP st") (auto simp: matchP_peek previousValue_peek orElse_def)

lemma parseEqualityLoop_step:
  "parseEqualityLoop pe (Suc n) left st =
     (case peekP st of
        None \<Rightarrow> Thrown TypeError st
      | Some t \<Rightarrow>
          if ttype t \<in> set [EQUALS, NOT_EQUALS] then
            andThen (parseComparison pe n (st\<lparr>ppos := Suc (ppos st)\<rparr>))
              (\<lambda>right st'. parseEqualityLoop pe n (BinaryExpression (tvalue t) left right) st')
          else Ok left st)"
  by (cases "peekP st") (auto simp: matchP_peek previousValue_peek orElse_def)

lemma parseAndLoop_step:
  "parseAndLoop pe (Suc n) left st =
     (case peekP st of
        None \<Rightarrow> Thrown TypeError st
      | Some t \<Rightarrow>
          if ttype t \<in> set [AND] then
            andThen (parseEquality pe n (st\<lparr>ppos := Suc (ppos st)\<rparr>))
              (\<lambda>right st'. parseAndLoop pe n (BinaryExpression ''&&'' left right) st')
          else Ok left st)"
  by (cases "peekP st") (auto simp: matchP_peek)

lemma parseOrLoop_step:
  "parseOrLoop pe (Suc n) left st =
     (case peekP st of
        None \<Rightarrow> Thrown TypeError st
      | Some t \<Rightarrow>
          if ttype t \<in> set [OR] then
            andThen (parseAnd pe n (st\<lparr>ppos := Suc (ppos st)\<rparr>))
              (\<lambda>right st'. parseOrLoop pe n (BinaryExpression ''||'' left right) st')
          else Ok left st)"
  by (cases "peekP st") (auto simp: matchP_peek)

lemma parsePipeLoop_step:
  "parsePipeLoop pe (Suc n) left st =
     (case peekP st of
        None \<Rightarrow> Thrown TypeError st
      | Some t \<Rightarrow>
          if ttype t \<in> set [PIPE] then
            andThen (parseOr pe n (st\<lparr>ppos := Suc (ppos st)\<rparr>))
              (\<lambda>right st'. parsePipeLoop pe n (PipeExpression left right) st')
          else Ok left st)"
  by (cases "peekP st") (auto simp: matchP_peek)

lemma chain_end:
  "chain operand ops st rest st' \<Longrightarrow> \<exists>t. peekP st' = Some t \<and> ttype t \<notin> set ops"
  by (induction rest arbitrary: st) auto

lemma parseFactor_foldsLeft:
  "foldsLeft (parseFactor pe) (parseUnary pe) [MULTIPLY, DIVIDE, MODULO]
     (\<lambda>t. BinaryExpression (tvalue t))"
  by (rule level_foldsLeft [where L = "parseFactorLoop pe", OF parseFactor_def
        parseFactorLoop.simps (1) parseFactorLoop_step parseUnary_below parseFactorLoop_below])

lemma parseTerm_foldsLeft:
  "foldsLeft (parseTerm pe) (parseFactor pe) [PLUS, MINUS] (\<lambda>t. BinaryExpression (tvalue t))"
  by (rule level_foldsLeft [where L = "parseTermLoop pe", OF parseTerm_def
        parseTermLoop.simps (1) parseTermLoop_step parseFactor_below parseTermLoop_below])

lemma parseEquality_foldsLeft:
  "foldsLeft (parseEquality pe) (parseComparison pe) [EQUALS, NOT_EQUALS]
     (\<lambda>t. BinaryExpression (tvalue t))"
  by (rule level_foldsLeft [where L = "parseEqualityLoop pe", OF parseEquality_def
        parseEqualityLoop.simps (1) parseEqualityLoop_step parseComparison_below
        parseEqualityLoop_below])

lemma parseAnd_foldsLeft:
  "foldsLeft (parseAnd pe) (parseEquality pe) [AND] (\<lambda>t. BinaryExpression ''&&'')"
  by (rule level_foldsLeft [where L = "parseAndLoop pe", OF parseAnd_def
        parseAndLoop.simps (1) parseAndLoop_step parseEquality_below parseAndLoop_below])

lemma parseOr_foldsLeft:
  "foldsLeft (parseOr pe) (parseAnd pe) [OR] (\<lambda>t. BinaryExpression ''||'')"
  by (rule level_foldsLeft [where L = "parseOrLoop pe", OF parseOr_def
        parseOrLoop.simps (1) parseOrLoop_step parseAnd_below parseOrLoop_below])

lemma parsePipe_foldsLeft:
  "foldsLeft (parsePipe pe) (parseOr pe) [PIPE] (\<lambda>t. PipeExpression)"
  by (rule level_foldsLeft [where L = "parsePipeLoop pe", OF parsePipe_def
        parsePipeLoop.simps (1) parsePipeLoop_step parseOr_below parsePipeLoop_below])

text \<open>A factor never stops in front of a multiplicative operator.\<close>

lemma parseFactor_absorbs:
  assumes "returns (parseFactor pe) st e st'"
  shows "\<exists>t. peekP st' = Some t \<and> ttype t \<notin> set [MULTIPLY, DIVIDE, MODULO]"
proof -
  from assms parseFactor_foldsLeft [of pe] obtain st0 rest where
    "chain (returns (parseUnary pe)) [MULTIPLY, DIVIDE, MODULO] st0 rest st'"
    unfolding foldsLeft_def by blast
  then show ?thesis by (rule chain_end)
qed

section \<open>The parser on the inputs of the specification\<close>

text \<open>
  Claim C8. The expression \<open>1 + 2 * 3\<close> parses to a \<open>+\<close> node whose left operand is the
  literal 1 and whose right operand is the \<open>*\<close> node of the literals 2 and 3; a mix the
  other way round, \<open>1 * 2 + 3\<close>, puts the \<open>*\<close> node on the left; and two operators of one
  level, at each of the six levels, give a node whose left operand is the node of the
  first operator. In general, whatever the operands and whatever parser \<open>pe\<close> is run for
  a nested expression: each level of the ladder returns exactly the left-nested nodes
  over its chains of operators, the operands being what the next tighter level
  returns. So the operands of \<open>+\<close> and \<open>-\<close> are whole factors, and a factor takes in
  every \<open>*\<close>, \<open>/\<close> or \<open>%\<close> that follows it: it never stops in front of one.
\<close>

theorem precedence_and_associativity:
  "(parse (fst (tokenize ''1 + 2 * 3'')) =
     Returned (Program [ExpressionStatement
       (BinaryExpression ''+'' (Literal (NumberValue ''1'') ''1'')
         (BinaryExpression ''*'' (Literal (NumberValue ''2'') ''2'')
           (Literal (NumberValue ''3'') ''3'')))]) [] \<and>
   parse (fst (tokenize ''1 * 2 + 3'')) =
     Returned (Program [ExpressionStatement
       (BinaryExpression ''+''
         (BinaryExpression ''*'' (Literal (NumberValue ''1'') ''1'')
           (Literal (NumberValue ''2'') ''2''))
         (Literal (NumberValue ''3'') ''3''))]) [] \<and>
   parse (fst (tokenize ''a * b / c % d'')) =
     Returned (Program [ExpressionStatement
       (BinaryExpression ''%''
         (BinaryExpression ''/'' (BinaryExpression ''*'' (Identifier ''a'') (Identifier ''b''))
           (Identifier ''c''))
         (Identifier ''d''))]) [] \<and>
   parse (fst (tokenize ''a - b + c'')) =
     Returned (Program [ExpressionStatement
       (BinaryExpression ''+'' (BinaryExpression ''-'' (Identifier ''a'') (Identifier ''b''))
         (Identifier ''c''))]) [] \<and>
   parse (fst (tokenize ''a == b != c'')) =
     Returned (Program [ExpressionStatement
       (BinaryExpression ''!='' (BinaryExpression ''=='' (Identifier ''a'') (Identifier ''b''))
         (Identifier ''c''))]) [] \<and>
   parse (fst (tokenize ''a && b && c'')) =
     Returned (Program [ExpressionStatement
       (BinaryExpression ''&&'' (BinaryExpression ''&&'' (Identifier ''a'') (Identifier ''b''))
         (Identifier ''c''))]) [] \<and>
   parse (fst (tokenize ''a || b || c'')) =
     Returned (Program [ExpressionStatement
       (BinaryExpression ''||'' (BinaryExpression ''||'' (Identifier ''a'') (Identifier ''b''))
         (Identifier ''c''))]) [] \<and>
   parse (fst (tokenize ''a |> b |> c'')) =
     Returned (Program [ExpressionStatement
       (PipeExpression (PipeExpression (Identifier ''a'') (Identifier ''b''))
         (Identifier ''c''))]) []) \<and>
   foldsLeft (parseFactor pe) (parseUnary pe) [MULTIPLY, DIVIDE, MODULO]
     (\<lambda>t. BinaryExpression (tvalue t)) \<and>
   foldsLeft (parseTerm pe) (parseFactor pe) [PLUS, MINUS]
     (\<lambda>t. BinaryExpression (tvalue t)) \<and>
   foldsLeft (parseEquality pe) (parseComparison pe) [EQUALS, NOT_EQUALS]
     (\<lambda>t. BinaryExpression (tvalue t)) \<and>
   foldsLeft (parseAnd pe) (parseEquality pe) [AND] (\<lambda>t. BinaryExpression ''&&'') \<and>
   foldsLeft (parseOr pe) (parseAnd pe) [OR] (\<lambda>t. BinaryExpression ''||'') \<and>
   foldsLeft (parsePipe pe) (parseOr pe) [PIPE] (\<lambda>t. PipeExpression) \<and>
   (returns (parseFactor pe) st e st' \<longrightarrow>
      (\<exists>t. peekP st' = Some t \<and> ttype t \<notin> set [MULTIPLY, DIVIDE, MODULO]))"
proof (rule conjI)
  show "parse (fst (tokenize ''1 + 2 * 3'')) =
     Returned (Program [ExpressionStatement
       (BinaryExpression ''+'' (Literal (NumberValue ''1'') ''1'')
         (BinaryExpression ''*'' (Literal (NumberValue ''2'') ''2'')
           (Literal (NumberValue ''3'') ''3'')))]) [] \<and>
   parse (fst (tokenize ''1 * 2 + 3'')) =
     Returned (Program [ExpressionStatement
       (BinaryExpression ''+''
         (BinaryExpression ''*'' (Literal (NumberValue ''1'') ''1'')
           (Literal (NumberValue ''2'') ''2''))
         (Literal (NumberValue ''3'') ''3''))]) [] \<and>
   parse (fst (tokenize ''a * b / c % d'')) =
     Returned (Program [ExpressionStatement
       (BinaryExpression ''%''
         (BinaryExpression ''/'' (BinaryExpression ''*'' (Identifier ''a'') (Identifier ''b''))
           (Identifier ''c''))
         (Identifier ''d''))]) [] \<and>
   parse (fst (tokenize ''a - b + c'')) =
     Returned (Program [ExpressionStatement
       (BinaryExpression ''+'' (BinaryExpression ''-'' (Identifier ''a'') (Identifier ''b''))
         (Identifier ''c''))]) [] \<and>
   parse (fst (tokenize ''a == b != c'')) =
     Returned (Program [ExpressionStatement
       (BinaryExpression ''!='' (BinaryExpression ''=='' (Identifier ''a'') (Identifier ''b''))
         (Identifier ''c''))]) [] \<and>
   parse (fst (tokenize ''a && b && c'')) =
     Returned (Program [ExpressionStatement
       (BinaryExpression ''&&'' (BinaryExpression ''&&'' (Identifier ''a'') (Identifier ''b''))
         (Identifier ''c''))]) [] \<and>
   parse (fst (tokenize ''a || b || c'')) =
     Returned (Program [ExpressionStatement
       (BinaryExpression ''||'' (BinaryExpression ''||'' (Identifier ''a'') (Identifier ''b''))
         (Identifier ''c''))]) [] \<and>
   parse (fst (tokenize ''a |> b |> c'')) =
     Returned (Program [ExpressionStatement
       (PipeExpression (PipeExpression (Identifier ''a'') (Identifier ''b''))
         (Identifier ''c''))]) []"
    by (intro conjI; code_simp)
  show "foldsLeft (parseFactor pe) (parseUnary pe) [MULTIPLY, DIVIDE, MODULO]
     (\<lambda>t. BinaryExpression (tvalue t)) \<and>
   foldsLeft (parseTerm pe) (parseFactor pe) [PLUS, MINUS]
     (\<lambda>t. BinaryExpression (tvalue t)) \<and>
   foldsLeft (parseEquality pe) (parseComparison pe) [EQUALS, NOT_EQUALS]
     (\<lambda>t. BinaryExpression (tvalue t)) \<and>
   foldsLeft (parseAnd pe) (parseEquality pe) [AND] (\<lambda>t. BinaryExpression ''&&'') \<and>
   foldsLeft (parseOr pe) (parseAnd pe) [OR] (\<lambda>t. BinaryExpression ''||'') \<and>
   foldsLeft (parsePipe pe) (parseOr pe) [PIPE] (\<lambda>t. PipeExpression) \<and>
   (returns (parseFactor pe) st e st' \<longrightarrow>
      (\<exists>t. peekP st' = Some t \<and> ttype t \<notin> set [MULTIPLY, DIVIDE, MODULO]))"
    by (intro conjI impI parseFactor_foldsLeft parseTerm_foldsLeft parseEquality_foldsLeft
        parseAnd_foldsLeft parseOr_foldsLeft parsePipe_foldsLeft parseFactor_absorbs)
qed

theorem precedence_and_associativity_witness:
  "returns (parseTerm (parseExpression 2)) (newParser (fst (tokenize ''a - b + c * d'')))
     (BinaryExpression ''+'' (BinaryExpression ''-'' (Identifier ''a'') (Identifier ''b''))
        (BinaryExpression ''*'' (Identifier ''c'') (Identifier ''d'')))
     ((newParser (fst (tokenize ''a - b + c * d'')))\<lparr>ppos := 7\<rparr>) \<and>
   (\<exists>first st0 rest.
      returns (parseFactor (parseExpression 2)) (newParser (fst (tokenize ''a - b + c * d'')))
        first st0 \<and>
      chain (returns (parseFactor (parseExpression 2))) [PLUS, MINUS] st0 rest
        ((newParser (fst (tokenize ''a - b + c * d'')))\<lparr>ppos := 7\<rparr>) \<and>
      BinaryExpression ''+'' (BinaryExpression ''-'' (Identifier ''a'') (Identifier ''b''))
        (BinaryExpression ''*'' (Identifier ''c'') (Identifier ''d'')) =
      foldl (\<lambda>left (t, right). BinaryExpression (tvalue t) left right) first rest) \<and>
   returns (parseFactor (parseExpression 2))
     ((newParser (fst (tokenize ''a - b + c * d'')))\<lparr>ppos := 4\<rparr>)
     (BinaryExpression ''*'' (Identifier ''c'') (Identifier ''d''))
     ((newParser (fst (tokenize ''a - b + c * d'')))\<lparr>ppos := 7\<rparr>) \<and>
   (\<exists>t. peekP ((newParser (fst (tokenize ''a - b + c * d'')))\<lparr>ppos := 7\<rparr>) = Some t \<and>
      ttype t \<notin> set [MULTIPLY, DIVIDE, MODULO])"
proof -
  define S where "S = newParser (fst (tokenize ''a - b + c * d''))"
  let ?pe = "parseExpression 2"
  let ?E = "BinaryExpression ''+'' (BinaryExpression ''-'' (Identifier ''a'') (Identifier ''b''))
        (BinaryExpression ''*'' (Identifier ''c'') (Identifier ''d''))"
  let ?F = "BinaryExpression ''*'' (Identifier ''c'') (Identifier ''d'')"
  have e1: "parseTerm ?pe 9 S = Ok ?E (S\<lparr>ppos := 7\<rparr>)" unfolding S_def by code_simp
  have t: "returns (parseTerm ?pe) S ?E (S\<lparr>ppos := 7\<rparr>)"
    unfolding returns_def by (rule exI, rule e1)
  have e2: "parseFactor ?pe 9 (S\<lparr>ppos := 4\<rparr>) = Ok ?F (S\<lparr>ppos := 7\<rparr>)"
    unfolding S_def by code_simp
  have f: "returns (parseFactor ?pe) (S\<lparr>ppos := 4\<rparr>) ?F (S\<lparr>ppos := 7\<rparr>)"
    unfolding returns_def by (rule exI, rule e2)
  note inst = precedence_and_associativity [of ?pe "S\<lparr>ppos := 4\<rparr>" ?F "S\<lparr>ppos := 7\<rparr>"]
  from inst have "foldsLeft (parseTerm ?pe) (parseFactor ?pe) [PLUS, MINUS]
     (\<lambda>t. BinaryExpression (tvalue t))" by (elim conjE)
  note fl = this [unfolded foldsLeft_def, THEN spec, THEN spec, THEN spec, THEN iffD1, OF t]
  have c: "\<exists>first st0 rest.
      returns (parseFactor ?pe) S first st0 \<and>
      chain (returns (parseFactor ?pe)) [PLUS, MINUS] st0 rest (S\<lparr>ppos := 7\<rparr>) \<and>
      ?E = foldl (\<lambda>left (t, right). BinaryExpression (tvalue t) left right) first rest"
    by (rule fl)
  from inst have "returns (parseFactor ?pe) (S\<lparr>ppos := 4\<rparr>) ?F (S\<lparr>ppos := 7\<rparr>) \<longrightarrow>
      (\<exists>t. peekP (S\<lparr>ppos := 7\<rparr>) = Some t \<and> ttype t \<notin> set [MULTIPLY, DIVIDE, MODULO])"
    by (elim conjE)
  from this f
  have p: "\<exists>t. peekP (S\<lparr>ppos := 7\<rparr>) = Some t \<and> ttype t \<notin> set [MULTIPLY, DIVIDE, MODULO]"
    by (rule mp)
  from t c f p show ?thesis unfolding S_def by (intro conjI)
qed

text \<open>
  Claim C9. The source \<open>template {{ user.name }}\<close> lexes and parses to one template
  statement with exactly one part, an expression: the member access, not computed, of
  the property \<open>name\<close> of the identifier \<open>user\<close>.
\<close>

theorem template_interpolation:
  "parse (fst (tokenize ''template {{ user.name }}'')) =
     Returned (Program [TemplateStatement
       [ExpressionPart
          (MemberExpression (Identifier ''user'') (Identifier ''name'') False)]]) []"
  by code_simp

end
